theory Spec2Isabelle
  imports Main "HOL-Library.AList" "HOL-Library.Multiset"
begin

section \<open>Chunker: \<open>split_text\<close> (PdfEditor.py)\<close>

text \<open>
  The loop of \<open>split_text\<close>:
  \<^verbatim>\<open>
    while start < len(text):
        end = min(start + max_chunk_size, len(text))
        chunks.append(text[start:end])
        start = end
  \<close>
  The loop itself has no guard on \<open>max_chunk_size\<close>; with a chunk size of 0 it would
  never advance. It is therefore a partial function, whose value \<open>None\<close> stands for
  a loop that does not return. The slice \<open>text[start:end]\<close> with
  \<open>0 \<le> start \<le> end \<le> len(text)\<close> is \<open>take (end - start) (drop start text)\<close>.
\<close>

partial_function (option) split_loop :: "string \<Rightarrow> nat \<Rightarrow> nat \<Rightarrow> string list \<Rightarrow> string list option" where
  "split_loop text max_chunk_size start chunks =
     (if start < length text then
        (let end = min (start + max_chunk_size) (length text)
         in split_loop text max_chunk_size end (chunks @ [take (end - start) (drop start text)]))
      else Some chunks)"

text \<open>
  \<open>split_text\<close> returns the empty list for an empty text and for a chunk size that is
  not positive, before the loop is entered. Python's \<open>max_chunk_size\<close> is an unbounded
  integer; past the guard it is positive, and the loop runs on its value as a natural number.
\<close>

definition split_text :: "string \<Rightarrow> int \<Rightarrow> string list option" where
  "split_text text max_chunk_size =
     (if text = [] then Some []
      else if max_chunk_size \<le> 0 then Some []
      else split_loop text (nat max_chunk_size) 0 [])"

section \<open>Resilient invocation: \<open>retry_api_call\<close> (utils.py)\<close>

text \<open>
  The wrapper catches \<open>HttpError\<close> and \<open>APIError\<close> in one clause and every other
  exception in a second one. The status code is read from the exception when the attributes
  are there (\<open>e.resp.status\<close>, \<open>e.response.status_code\<close>) and is \<open>None\<close> otherwise.
\<close>

datatype api_exception = HttpError "int option" | APIError "int option" | OtherException

fun status_code :: "api_exception \<Rightarrow> int option" where
  "status_code (HttpError status) = status"
| "status_code (APIError status) = status"
| "status_code OtherException = None"

text \<open>
  \<open>status_code in retry_status_codes\<close>, in the clause for \<open>HttpError\<close> and
  \<open>APIError\<close>; \<open>None\<close> is in no tuple of status codes.
\<close>

definition retryable :: "int list \<Rightarrow> api_exception \<Rightarrow> bool" where
  "retryable retry_status_codes e =
     (case e of
        OtherException \<Rightarrow> False
      | _ \<Rightarrow> (case status_code e of None \<Rightarrow> False | Some s \<Rightarrow> s \<in> set retry_status_codes))"

definition default_retry_status_codes :: "int list" where
  "default_retry_status_codes = [500, 502, 503, 504]"

text \<open>
  The wrapped operation may have effects, so its outcome depends on how often it has been
  invoked: \<open>func k\<close> is the outcome of invocation number \<open>k\<close> (counted from 0).
\<close>

datatype 'a outcome = Returns 'a | Raises api_exception

text \<open>
  What the wrapper does: it returns the value of the operation, raises an exception, or
  leaves the loop without either (a negative \<open>max_retries\<close>; Python then returns \<open>None\<close>).
\<close>

datatype 'a call_result = Returned 'a | Raised api_exception | NoResult

text \<open>
  The loop \<open>while retries <= max_retries\<close> of \<open>wrapper\<close>. The state is the retry counter
  and the number of invocations made so far; the result carries the total number of
  invocations. The waiting time (\<open>time.sleep\<close> of a delay with random jitter) changes
  neither the control flow nor the result and is left out.
\<close>

function wrapper :: "int \<Rightarrow> int list \<Rightarrow> (nat \<Rightarrow> 'a outcome) \<Rightarrow> int \<Rightarrow> nat \<Rightarrow> 'a call_result \<times> nat" where
  "wrapper max_retries retry_status_codes func retries calls =
     (if retries \<le> max_retries then
        (case func calls of
           Returns v \<Rightarrow> (Returned v, calls + 1)
         | Raises e \<Rightarrow>
             (case e of
                OtherException \<Rightarrow> (Raised e, calls + 1)
              | _ \<Rightarrow>
                  if (case status_code e of None \<Rightarrow> False | Some s \<Rightarrow> s \<in> set retry_status_codes) then
                    if retries < max_retries then
                      wrapper max_retries retry_status_codes func (retries + 1) (calls + 1)
                    else (Raised e, calls + 1)
                  else (Raised e, calls + 1)))
      else (NoResult, calls))"
  by pat_completeness auto
termination
  by (relation "measure (\<lambda>(max_retries, retry_status_codes, func, retries, calls).
        nat (max_retries - retries))") auto

declare wrapper.simps [simp del]

definition retry_api_call :: "int \<Rightarrow> int list \<Rightarrow> (nat \<Rightarrow> 'a outcome) \<Rightarrow> 'a call_result \<times> nat" where
  "retry_api_call max_retries retry_status_codes func =
     wrapper max_retries retry_status_codes func 0 0"

section \<open>Whitespace-insensitive search: \<open>_find_ignoring_whitespace\<close> (PdfEditor.py)\<close>

text \<open>
  Python's \<open>str.isspace\<close> on one character, for the code points below 256 that a
  \<^typ>\<open>char\<close> holds: tab, line feed, vertical tab, form feed, carriage return, the
  separators \<open>0x1c\<close> to \<open>0x1f\<close>, space, \<open>0x85\<close> and \<open>0xa0\<close>.
\<close>

definition isspace :: "char \<Rightarrow> bool" where
  "isspace c \<longleftrightarrow> (of_char c :: nat) \<in> {9, 10, 11, 12, 13, 28, 29, 30, 31, 32, 133, 160}"

text \<open>
  The two inner loops \<open>while idx < len(s) and s[idx].isspace(): idx += 1\<close>, on the
  haystack and on the needle. The loop on the haystack also increments \<open>start_offset\<close>,
  which is never read again.
\<close>

function skip_whitespace :: "string \<Rightarrow> nat \<Rightarrow> nat" where
  "skip_whitespace s idx =
     (if idx < length s \<and> isspace (s ! idx) then skip_whitespace s (idx + 1) else idx)"
  by pat_completeness auto
termination
  by (relation "measure (\<lambda>(s, idx). length s - idx)") auto

declare skip_whitespace.simps [simp del]

text \<open>The code after the main loop: the rest of the needle may be whitespace only.\<close>

definition find_after_loop :: "string \<Rightarrow> nat \<Rightarrow> int \<Rightarrow> int" where
  "find_after_loop needle n_idx potential_start =
     (let n_idx = skip_whitespace needle n_idx
      in if n_idx = length needle then potential_start else - 1)"

text \<open>
  The position from which the scan cannot go back any more; it only serves the
  termination proof of the main loop.
\<close>

definition scan_candidate :: "nat \<Rightarrow> int \<Rightarrow> nat" where
  "scan_candidate h_idx potential_start =
     (if potential_start \<noteq> - 1 then min (nat potential_start) h_idx else h_idx)"

text \<open>
  The main loop \<open>while h_idx < h_len\<close>. \<open>potential_start\<close> is an integer with the
  sentinel \<open>-1\<close>, as in the source; the indices are natural numbers. When the source sets
  \<open>h_idx = potential_start\<close>, \<open>potential_start\<close> is not \<open>-1\<close> and holds an index.
\<close>

function find_loop :: "string \<Rightarrow> string \<Rightarrow> nat \<Rightarrow> nat \<Rightarrow> int \<Rightarrow> int" where
  "find_loop haystack needle h_idx n_idx potential_start =
     (if h_idx < length haystack then
        (let h_idx = skip_whitespace haystack h_idx
         in if h_idx = length haystack then find_after_loop needle n_idx potential_start
            else
              (let n_idx = skip_whitespace needle n_idx
               in if n_idx = length needle then potential_start
                  else if haystack ! h_idx = needle ! n_idx then
                    find_loop haystack needle (h_idx + 1) (n_idx + 1)
                      (if n_idx = 0 then int h_idx else potential_start)
                  else if potential_start \<noteq> - 1 then
                    find_loop haystack needle (nat potential_start + 1) 0 (- 1)
                  else find_loop haystack needle (h_idx + 1) 0 (- 1)))
      else find_after_loop needle n_idx potential_start)"
  by pat_completeness auto
termination
proof -
  have bounds: "idx \<le> skip_whitespace s idx \<and> (idx \<le> length s \<longrightarrow> skip_whitespace s idx \<le> length s)"
    for s idx
  proof (induction s idx rule: skip_whitespace.induct)
    case (1 s idx)
    show ?case
    proof (cases "idx < length s \<and> isspace (s ! idx)")
      case True
      then have "skip_whitespace s idx = skip_whitespace s (idx + 1)"
        by (subst skip_whitespace.simps) simp
      with 1 True show ?thesis by auto
    next
      case False
      then have "skip_whitespace s idx = idx"
        by (subst skip_whitespace.simps) auto
      then show ?thesis by simp
    qed
  qed
  have step: "h_idx \<le> skip_whitespace haystack h_idx \<and> skip_whitespace haystack h_idx < length haystack"
    if "h_idx < length haystack" "skip_whitespace haystack h_idx \<noteq> length haystack"
    for haystack h_idx
    using that bounds [of h_idx haystack] by auto
  show ?thesis
  proof (relation "inv_image (less_than <*lex*> less_than)
      (\<lambda>(haystack, needle, h_idx, n_idx, potential_start).
         (length haystack - scan_candidate h_idx potential_start, length haystack - h_idx))", goal_cases)
    case 1
    show ?case by (intro wf_inv_image wf_lex_prod wf_less_than)
  next
    case (2 haystack needle h_idx n_idx potential_start h n)
    with step [of h_idx haystack] show ?case
      by (auto simp: scan_candidate_def min_def)
  next
    case (3 haystack needle h_idx n_idx potential_start h n)
    with step [of h_idx haystack] show ?case
      by (auto simp: scan_candidate_def min_def)
  next
    case (4 haystack needle h_idx n_idx potential_start h n)
    with step [of h_idx haystack] show ?case
      by (auto simp: scan_candidate_def min_def)
  qed
qed

declare find_loop.simps [simp del]

text \<open>
  \<open>start_offset\<close> is a position in the haystack: the callers pass 0, or the sum of a
  found position and the length of a title.
\<close>

definition find_ignoring_whitespace :: "string \<Rightarrow> string \<Rightarrow> nat \<Rightarrow> int" where
  "find_ignoring_whitespace haystack needle start_offset =
     (if needle = [] then int start_offset
      else find_loop haystack needle start_offset 0 (- 1))"

text \<open>
  What the docstring of the search asks for, in its own words: whitespace of haystack and
  needle is ignored, and a match is reported at the index of the original haystack where it
  begins. A match begins at \<open>i\<close> when \<open>haystack[i]\<close> is no whitespace and the needle without
  its whitespace is a prefix of the haystack from \<open>i\<close> on without its whitespace.
\<close>

definition matches_ignoring_whitespace_at :: "string \<Rightarrow> string \<Rightarrow> nat \<Rightarrow> bool" where
  "matches_ignoring_whitespace_at haystack needle i \<longleftrightarrow>
     i < length haystack \<and> \<not> isspace (haystack ! i) \<and>
     take (length (filter (\<lambda>c. \<not> isspace c) needle)) (filter (\<lambda>c. \<not> isspace c) (drop i haystack))
       = filter (\<lambda>c. \<not> isspace c) needle"

section \<open>Splitting by bookmarks: \<open>split_text_by_bookmarks\<close> (PdfEditor.py)\<close>

text \<open>
  The reader of an opened document, as far as the function uses it: the outline (a list
  whose items are bookmarks or lists of sub-bookmarks; absent and empty are both falsy) and
  the text that \<open>extract_text\<close> gives for each page (empty when there is none;
  the extraction itself is taken to return, as the interface of the specification says).
  \<open>get_destination_page_number\<close> gives a page index, gives \<open>None\<close>, or raises.
\<close>

datatype destination = Page int | NoPage | Unresolvable

datatype outline_item = Bookmark string destination | SubOutline "outline_item list"

record pdf_reader =
  outline :: "outline_item list"
  pages :: "string list"

text \<open>An entry of \<open>all_bookmarks_info\<close>: title, page index, level.\<close>

type_synonym bookmark_info = "string \<times> int \<times> nat"

definition title_of :: "bookmark_info \<Rightarrow> string" where
  "title_of item = fst item"

definition page_of :: "bookmark_info \<Rightarrow> int" where
  "page_of item = fst (snd item)"

definition level_of :: "bookmark_info \<Rightarrow> nat" where
  "level_of item = snd (snd item)"

text \<open>
  \<open>_get_bookmarks\<close> appends to the list \<open>all_bookmarks_info\<close> of the enclosing function;
  here the list is passed in and returned. A bookmark whose page number is \<open>None\<close> or
  cannot be determined is skipped.
\<close>

fun get_bookmarks :: "outline_item list \<Rightarrow> nat \<Rightarrow> bookmark_info list \<Rightarrow> bookmark_info list" where
  "get_bookmarks [] level all_bookmarks_info = all_bookmarks_info"
| "get_bookmarks (SubOutline sub # outline_items) level all_bookmarks_info =
     get_bookmarks outline_items level (get_bookmarks sub (level + 1) all_bookmarks_info)"
| "get_bookmarks (Bookmark title dest # outline_items) level all_bookmarks_info =
     get_bookmarks outline_items level
       (case dest of
          Page page_index \<Rightarrow> all_bookmarks_info @ [(title, page_index, level)]
        | NoPage \<Rightarrow> all_bookmarks_info
        | Unresolvable \<Rightarrow> all_bookmarks_info)"

text \<open>
  \<open>for page_num in range(a, b): page_text = ...; if page_text: text += page_text\<close>, used
  for the whole document and for the pages of one chapter.
\<close>

definition extract_pages :: "string list \<Rightarrow> nat \<Rightarrow> nat \<Rightarrow> string" where
  "extract_pages pgs a b =
     foldl (\<lambda>acc page_num. let page_text = pgs ! page_num
                            in if page_text \<noteq> [] then acc @ page_text else acc) [] [a..<b]"

text \<open>The end page and the next title of entry \<open>i\<close> of the sorted list.\<close>

definition end_page_of :: "string list \<Rightarrow> bookmark_info list \<Rightarrow> nat \<Rightarrow> int" where
  "end_page_of pgs sorted_info i =
     (if i + 1 < length sorted_info then page_of (sorted_info ! (i + 1)) else int (length pgs))"

definition next_title_of :: "bookmark_info list \<Rightarrow> nat \<Rightarrow> string" where
  "next_title_of sorted_info i =
     (if i + 1 < length sorted_info then title_of (sorted_info ! (i + 1)) else [])"

text \<open>
  The page numbers that the page loop of a chapter visits,
  \<open>range(start_page, page_extraction_upper_bound)\<close>; none when the start page lies
  outside the document.
\<close>

definition chapter_page_range :: "string list \<Rightarrow> int \<Rightarrow> int \<Rightarrow> nat list" where
  "chapter_page_range pgs start_page end_page =
     (if \<not> (0 \<le> start_page \<and> start_page < int (length pgs)) then []
      else
        (let page_extraction_upper_bound = min (end_page + 1) (int (length pgs))
         in if start_page < page_extraction_upper_bound
            then [nat start_page..<nat page_extraction_upper_bound]
            else []))"

text \<open>
  \<open>chapter_text\<close>, the text of the pages of a chapter before it is refined. The upper
  bound of the page loop is \<open>min(end_page + 1, len(reader.pages))\<close>.
\<close>

definition raw_chapter_text :: "string list \<Rightarrow> int \<Rightarrow> int \<Rightarrow> string" where
  "raw_chapter_text pgs start_page end_page =
     (if \<not> (0 \<le> start_page \<and> start_page < int (length pgs)) then []
      else
        (let page_extraction_upper_bound = min (end_page + 1) (int (length pgs))
         in if start_page < page_extraction_upper_bound
            then extract_pages pgs (nat start_page) (nat page_extraction_upper_bound)
            else []))"

text \<open>
  Python's slices \<open>s[a:b]\<close> and \<open>s[a:]\<close> for integers: a negative bound counts from the
  end, and every bound is clipped to the string.
\<close>

definition slice_bound :: "string \<Rightarrow> int \<Rightarrow> nat" where
  "slice_bound s i = nat (if i < 0 then max 0 (int (length s) + i) else min i (int (length s)))"

definition slice :: "string \<Rightarrow> int \<Rightarrow> int \<Rightarrow> string" where
  "slice s a b = drop (slice_bound s a) (take (slice_bound s b) s)"

definition slice_from :: "string \<Rightarrow> int \<Rightarrow> string" where
  "slice_from s a = drop (slice_bound s a) s"

text \<open>\<open>str.strip()\<close>: whitespace is removed at both ends.\<close>

definition strip :: "string \<Rightarrow> string" where
  "strip s = rev (dropWhile isspace (rev (dropWhile isspace s)))"

text \<open>
  The refinement by the titles. No operation of it can raise in this model, so the
  \<open>except\<close> clause that falls back to the page text has no branch here.
  \<open>start_index\<close> is passed to the search as its start offset; it is not negative
  there, since \<open>start_pos\<close> is not \<open>-1\<close> and the search returns nothing below \<open>-1\<close>.
\<close>

definition refine_text :: "string \<Rightarrow> string \<Rightarrow> string \<Rightarrow> string" where
  "refine_text chapter_text title next_title =
     (if chapter_text \<noteq> [] then
        (let start_pos = find_ignoring_whitespace chapter_text title 0
         in if start_pos \<noteq> - 1 then
              (let start_index = start_pos + int (length title)
               in if next_title \<noteq> [] then
                    (let end_pos = find_ignoring_whitespace chapter_text next_title (nat start_index)
                     in if end_pos \<noteq> - 1 then slice chapter_text start_index end_pos
                        else slice_from chapter_text start_index)
                  else slice_from chapter_text start_index)
            else chapter_text)
      else chapter_text)"

text \<open>A value of the result: \<open>{"text": ..., "level": ...}\<close>.\<close>

record chapter_entry =
  entry_text :: string
  entry_level :: nat

text \<open>The key and the value that iteration \<open>i\<close> of the loop over the sorted list stores.\<close>

definition chapter_at :: "string list \<Rightarrow> bookmark_info list \<Rightarrow> nat \<Rightarrow> string \<times> chapter_entry" where
  "chapter_at pgs sorted_info i =
     (let title = title_of (sorted_info ! i);
          start_page = page_of (sorted_info ! i);
          level = level_of (sorted_info ! i);
          end_page = end_page_of pgs sorted_info i;
          next_title = next_title_of sorted_info i;
          raw = raw_chapter_text pgs start_page end_page;
          refined_text = refine_text raw title next_title
      in (title, \<lparr>entry_text = strip refined_text, entry_level = level\<rparr>))"

text \<open>
  \<open>chapters[title] = ...\<close> on an ordered dictionary: a new key is appended, the value of
  a key that is there already is replaced where the key stands. This is \<open>AList.update\<close>.
\<close>

definition store_chapter :: "string list \<Rightarrow> bookmark_info list \<Rightarrow> (string \<times> chapter_entry) list \<Rightarrow> nat \<Rightarrow> (string \<times> chapter_entry) list" where
  "store_chapter pgs sorted_info chapters i =
     AList.update (fst (chapter_at pgs sorted_info i)) (snd (chapter_at pgs sorted_info i)) chapters"

definition sorted_bookmarks :: "bookmark_info list \<Rightarrow> bookmark_info list" where
  "sorted_bookmarks all_bookmarks_info = sort_key page_of all_bookmarks_info"

text \<open>
  The function from the opened reader on. \<open>None\<close> is the result \<open>None\<close> of the source
  (no text without bookmarks, no bookmark with a page); the checks of the path and the
  errors of reading the file come before and are not part of the model.
\<close>

definition split_text_by_bookmarks :: "pdf_reader \<Rightarrow> (string \<times> chapter_entry) list option" where
  "split_text_by_bookmarks reader =
     (let bookmarks = outline reader
      in if bookmarks = [] then
           (let full_text = extract_pages (pages reader) 0 (length (pages reader))
            in if full_text \<noteq> [] then
                 Some [(''Full Text (No Bookmarks)'', \<lparr>entry_text = full_text, entry_level = 0\<rparr>)]
               else None)
         else
           (let all_bookmarks_info = get_bookmarks bookmarks 0 []
            in if all_bookmarks_info = [] then None
               else
                 (let sorted_all_bookmarks_info = sorted_bookmarks all_bookmarks_info
                  in Some (foldl (store_chapter (pages reader) sorted_all_bookmarks_info) []
                             [0..<length sorted_all_bookmarks_info]))))"

section \<open>The wording of the specification, and concrete documents\<close>

text \<open>
  The raw text of a chapter as the specification words it: the page texts over the
  half-open interval from \<open>start_page\<close> to \<open>end_page_exclusive\<close>, in page order.
\<close>

definition spec_chapter_text :: "string list \<Rightarrow> int \<Rightarrow> int \<Rightarrow> string" where
  "spec_chapter_text pgs start_page end_page_exclusive =
     concat (map ((!) pgs) [nat start_page..<nat end_page_exclusive])"

text \<open>Two pages, and a bookmark on each of them.\<close>

definition two_page_reader :: pdf_reader where
  "two_page_reader =
     \<lparr>outline = [Bookmark ''A'' (Page 0), Bookmark ''B'' (Page 1)], pages = [''x'', ''y'']\<rparr>"

text \<open>The raw chapter text of the specification's example of the refinement.\<close>

definition example_chapter_text :: string where
  "example_chapter_text = ''noise Intro real content Chapter 2 more''"

text \<open>
  The flattening of the outline as the specification words it: a depth-first traversal in
  which a nested list is visited one level deeper, and a bookmark gives one entry with its
  nesting depth unless its page cannot be resolved.
\<close>

fun entries_of_item :: "outline_item \<Rightarrow> nat \<Rightarrow> bookmark_info list" where
  "entries_of_item (Bookmark title dest) depth =
     (case dest of Page page_index \<Rightarrow> [(title, page_index, depth)] | NoPage \<Rightarrow> [] | Unresolvable \<Rightarrow> [])"
| "entries_of_item (SubOutline sub) depth =
     concat (map (\<lambda>item. entries_of_item item (depth + 1)) sub)"

definition outline_entries :: "outline_item list \<Rightarrow> bookmark_info list" where
  "outline_entries outline_items = concat (map (\<lambda>item. entries_of_item item 0) outline_items)"

text \<open>
  The outline of the specification's end-to-end scenario, on five pages: a bookmark on
  page 0, a sub-bookmark on page 1, a bookmark on page 3.
\<close>

definition example_reader :: pdf_reader where
  "example_reader =
     \<lparr>outline = [Bookmark ''Intro'' (Page 0), SubOutline [Bookmark ''Sub'' (Page 1)],
                 Bookmark ''Chapter 2'' (Page 3)],
      pages = [''Intro a'', ''Sub b'', ''c'', ''Chapter 2 d'', ''e'']\<rparr>"

text \<open>A document without an outline.\<close>

definition no_outline_reader :: pdf_reader where
  "no_outline_reader = \<lparr>outline = [], pages = [''hello'']\<rparr>"

text \<open>Two bookmarks with the same title.\<close>

definition duplicate_title_reader :: pdf_reader where
  "duplicate_title_reader =
     \<lparr>outline = [Bookmark ''Notes'' (Page 0), Bookmark ''Notes'' (Page 1)],
      pages = [''x'', ''y'']\<rparr>"

text \<open>
  Bookmarks whose destination is no page of the document; the reader gives the page
  number \<open>-1\<close> for them.
\<close>

definition broken_bookmark_reader :: pdf_reader where
  "broken_bookmark_reader =
     \<lparr>outline = [Bookmark ''Notes'' (Page (- 1)), Bookmark ''Notes'' (Page 0)],
      pages = [''x'']\<rparr>"

definition lost_bookmark_reader :: pdf_reader where
  "lost_bookmark_reader =
     \<lparr>outline = [Bookmark ''Notes'' (Page 0), Bookmark ''Lost'' (Page (- 1))],
      pages = [''x'']\<rparr>"

text \<open>
  The result that the docstring asks for on a needle that is not empty: the index of the
  first match at or after the start offset, and \<open>-1\<close> when there is none.
\<close>

definition first_match_from :: "string \<Rightarrow> string \<Rightarrow> nat \<Rightarrow> int" where
  "first_match_from haystack needle start_offset =
     (case filter (matches_ignoring_whitespace_at haystack needle) [start_offset..<length haystack] of
        [] \<Rightarrow> - 1
      | i # _ \<Rightarrow> int i)"

text \<open>
  Twelve pages, each with its own number as text, and the entries of the specification's
  example of the range resolution, at the pages 5, 2 and 9.
\<close>

definition twelve_pages :: "string list" where
  "twelve_pages = [''p0'', ''p1'', ''p2'', ''p3'', ''p4'', ''p5'', ''p6'', ''p7'', ''p8'', ''p9'',
                   ''p10'', ''p11'']"

definition three_bookmarks :: "bookmark_info list" where
  "three_bookmarks = [(''e'', 5, 0), (''b'', 2, 1), (''i'', 9, 0)]"

text \<open>
  One page with the raw chapter text of the refinement example, and two bookmarks on it.
\<close>

definition refinement_reader :: pdf_reader where
  "refinement_reader =
     \<lparr>outline = [Bookmark ''Intro'' (Page 0), Bookmark ''Chapter 2'' (Page 0)],
      pages = [example_chapter_text]\<rparr>"

definition refinement_bookmarks :: "bookmark_info list" where
  "refinement_bookmarks = [(''Intro'', 0, 0), (''Chapter 2'', 0, 0)]"

section \<open>Properties of the chunker\<close>

lemma split_loop_returns:
  assumes "0 < m"
  shows "\<exists>cs. split_loop text m start chunks = Some (chunks @ cs)
            \<and> concat cs = drop start text
            \<and> (\<forall>c \<in> set cs. c \<noteq> [] \<and> length c \<le> m)"
proof (induction "length text - start" arbitrary: start chunks rule: less_induct)
  case less
  show ?case
  proof (cases "start < length text")
    case False
    then show ?thesis
      by (subst split_loop.simps) simp
  next
    case True
    define e where "e = min (start + m) (length text)"
    have e_gt: "start < e" and e_le: "e \<le> length text"
      using True assms by (simp_all add: e_def)
    have "length text - e < length text - start"
      using e_gt e_le by arith
    from less [OF this, of "chunks @ [take (e - start) (drop start text)]"]
    obtain cs where cs: "split_loop text m e (chunks @ [take (e - start) (drop start text)])
          = Some ((chunks @ [take (e - start) (drop start text)]) @ cs)"
      "concat cs = drop e text" "\<forall>c \<in> set cs. c \<noteq> [] \<and> length c \<le> m"
      by blast
    let ?c = "take (e - start) (drop start text)"
    have unfold: "split_loop text m start chunks = split_loop text m e (chunks @ [?c])"
      using True by (subst split_loop.simps) (simp add: e_def Let_def)
    have len_c: "length ?c = e - start"
      using e_le by simp
    have "?c @ drop e text = drop start text"
    proof -
      have "drop e text = drop (e - start) (drop start text)"
        using e_gt by simp
      then show ?thesis by (simp only: append_take_drop_id)
    qed
    then have cat: "concat (?c # cs) = drop start text"
      using cs(2) by simp
    have bound: "\<forall>c \<in> set (?c # cs). c \<noteq> [] \<and> length c \<le> m"
    proof -
      have "?c \<noteq> []" using len_c e_gt by auto
      moreover have "length ?c \<le> m" using len_c by (simp add: e_def)
      ultimately show ?thesis using cs(3) by simp
    qed
    have "split_loop text m start chunks = Some (chunks @ (?c # cs))"
      using unfold cs(1) by simp
    with cat bound show ?thesis by blast
  qed
qed

text \<open>
  Claim C2. For every non-empty text and every positive chunk size, \<open>split_text\<close> returns
  (the loop terminates), the pieces concatenated in order are exactly the text, and every
  piece has at most \<open>max_chunk_size\<close> characters. The pieces are moreover non-empty, and
  the \<open>k\<close>-th piece is the slice of the text that starts where the pieces before it end:
  no overlap, no reordering.
\<close>

theorem split_text_reconstructs:
  assumes "text \<noteq> []" and "0 < max_chunk_size"
  shows "\<exists>chunks. split_text text max_chunk_size = Some chunks
           \<and> concat chunks = text
           \<and> (\<forall>c \<in> set chunks. length c \<le> nat max_chunk_size)
           \<and> (\<forall>k < length chunks.
                 chunks ! k = take (length (chunks ! k)) (drop (length (concat (take k chunks))) text))"
proof -
  from assms(2) have "0 < nat max_chunk_size" by simp
  from split_loop_returns [OF this, of "text" 0 "[]"]
  obtain cs where cs: "split_loop text (nat max_chunk_size) 0 [] = Some cs"
    "concat cs = text" "\<forall>c \<in> set cs. c \<noteq> [] \<and> length c \<le> nat max_chunk_size"
    by auto
  have pos: "chunks_k = take (length chunks_k) (drop (length (concat (take k cs))) text)"
    if "k < length cs" "chunks_k = cs ! k" for k chunks_k
  proof -
    have "cs = take k cs @ cs ! k # drop (Suc k) cs"
      using that(1) by (simp add: id_take_nth_drop)
    then have "concat cs = concat (take k cs) @ cs ! k @ concat (drop (Suc k) cs)"
      by (metis concat.simps(2) concat_append)
    then have "drop (length (concat (take k cs))) text = cs ! k @ concat (drop (Suc k) cs)"
      using cs(2) by (metis append_eq_conv_conj)
    then show ?thesis using that(2) by simp
  qed
  have "split_text text max_chunk_size = Some cs"
    using assms cs(1) by (simp add: split_text_def)
  with cs(2,3) pos show ?thesis by auto
qed

theorem split_text_reconstructs_witness:
  "''abcdefg'' \<noteq> [] \<and> (0::int) < 3
   \<and> split_text ''abcdefg'' 3 = Some [''abc'', ''def'', ''g'']
   \<and> (\<exists>chunks. split_text ''abcdefg'' 3 = Some chunks \<and> concat chunks = ''abcdefg''
        \<and> (\<forall>c \<in> set chunks. length c \<le> nat 3))"
proof -
  have run: "split_text ''abcdefg'' 3 = Some [''abc'', ''def'', ''g'']"
    by (simp add: split_text_def split_loop.simps)
  have h1: "''abcdefg'' \<noteq> []" by simp
  have h2: "(0::int) < 3" by simp
  from split_text_reconstructs [OF h1 h2] run h1 h2 show ?thesis by auto
qed

section \<open>Properties of the retry wrapper\<close>

lemma wrapper_retry_step:
  assumes "func calls = Raises e" "retryable codes e" "retries < max_retries"
  shows "wrapper max_retries codes func retries calls
           = wrapper max_retries codes func (retries + 1) (calls + 1)"
  using assms
  by (subst wrapper.simps) (auto simp: retryable_def split: api_exception.splits option.splits)

lemma wrapper_exhausted:
  assumes "func calls = Raises e" "retryable codes e" "retries = max_retries"
  shows "wrapper max_retries codes func retries calls = (Raised e, calls + 1)"
  using assms
  by (subst wrapper.simps) (auto simp: retryable_def split: api_exception.splits option.splits)

lemma wrapper_not_retryable:
  assumes "func calls = Raises e" "\<not> retryable codes e" "retries \<le> max_retries"
  shows "wrapper max_retries codes func retries calls = (Raised e, calls + 1)"
  using assms
  by (subst wrapper.simps) (auto simp: retryable_def split: api_exception.splits option.splits)

text \<open>
  Claim C3. With \<open>max_retries = 2\<close>: when every attempt fails with an \<open>HttpError\<close> or
  \<open>APIError\<close> whose status is in the retryable set, the operation is invoked exactly
  3 times and the failure of the third invocation is raised; when the first attempt fails
  with a failure that is not retryable (a status outside the set, no status, or an exception
  of another kind), the operation is invoked exactly once and that failure is raised.
\<close>

theorem retry_api_call_attempts:
  "((\<forall>k < 3. \<exists>e. func k = Raises e \<and> retryable codes e) \<longrightarrow>
      (\<exists>e. func 2 = Raises e \<and> retry_api_call 2 codes func = (Raised e, 3)))
   \<and> (\<forall>e. func 0 = Raises e \<and> \<not> retryable codes e \<longrightarrow>
         retry_api_call 2 codes func = (Raised e, 1))"
proof (intro conjI impI allI)
  assume all: "\<forall>k < 3. \<exists>e. func k = Raises e \<and> retryable codes e"
  then obtain e0 e1 e2 where
    e0: "func 0 = Raises e0" "retryable codes e0" and
    e1: "func 1 = Raises e1" "retryable codes e1" and
    e2: "func 2 = Raises e2" "retryable codes e2"
    by (metis numeral_3_eq_3 zero_less_Suc One_nat_def Suc_1 Suc_less_eq)
  have "wrapper 2 codes func 0 0 = wrapper 2 codes func 1 1"
    using wrapper_retry_step [of func 0 e0 codes 0 2] e0 by simp
  also have "\<dots> = wrapper 2 codes func 2 2"
    using wrapper_retry_step [of func 1 e1 codes 1 2] e1 by (simp add: numeral_2_eq_2)
  also have "\<dots> = (Raised e2, 3)"
    using wrapper_exhausted [of func 2 e2 codes 2 2] e2 by (simp add: numeral_3_eq_3 numeral_2_eq_2)
  finally show "\<exists>e. func 2 = Raises e \<and> retry_api_call 2 codes func = (Raised e, 3)"
    using e2 by (simp add: retry_api_call_def)
next
  fix e
  assume "func 0 = Raises e \<and> \<not> retryable codes e"
  then show "retry_api_call 2 codes func = (Raised e, 1)"
    using wrapper_not_retryable [of func 0 e codes 0 2] by (simp add: retry_api_call_def)
qed

theorem retry_api_call_attempts_witness:
  "retryable default_retry_status_codes (HttpError (Some 503))
   \<and> retry_api_call 2 default_retry_status_codes (\<lambda>k. Raises (HttpError (Some 503)) :: unit outcome)
       = (Raised (HttpError (Some 503)), 3)
   \<and> \<not> retryable default_retry_status_codes (HttpError (Some 404))
   \<and> retry_api_call 2 default_retry_status_codes (\<lambda>k. Raises (HttpError (Some 404)) :: unit outcome)
       = (Raised (HttpError (Some 404)), 1)
   \<and> \<not> retryable default_retry_status_codes OtherException
   \<and> retry_api_call 2 default_retry_status_codes (\<lambda>k. Raises OtherException :: unit outcome)
       = (Raised OtherException, 1)"
proof -
  have r: "retryable default_retry_status_codes (HttpError (Some 503))"
    by (simp add: retryable_def default_retry_status_codes_def)
  have n1: "\<not> retryable default_retry_status_codes (HttpError (Some 404))"
    by (simp add: retryable_def default_retry_status_codes_def)
  have n2: "\<not> retryable default_retry_status_codes OtherException"
    by (simp add: retryable_def)
  show ?thesis
    using r n1 n2
      retry_api_call_attempts [of "\<lambda>k. Raises (HttpError (Some 503)) :: unit outcome" default_retry_status_codes]
      retry_api_call_attempts [of "\<lambda>k. Raises (HttpError (Some 404)) :: unit outcome" default_retry_status_codes]
      retry_api_call_attempts [of "\<lambda>k. Raises OtherException :: unit outcome" default_retry_status_codes]
    by simp
qed

section \<open>Properties of the whitespace-insensitive search\<close>

lemma skip_whitespace_all:
  assumes "\<forall>c \<in> set (drop idx s). isspace c"
  shows "skip_whitespace s idx = max idx (length s)"
  using assms
proof (induction s idx rule: skip_whitespace.induct)
  case (1 s idx)
  show ?case
  proof (cases "idx < length s")
    case True
    then have "s ! idx \<in> set (drop idx s)"
      by (metis Cons_nth_drop_Suc list.set_intros(1))
    with 1(2) have sp: "isspace (s ! idx)" by blast
    have "\<forall>c \<in> set (drop (idx + 1) s). isspace c"
      using 1(2) by (metis Suc_eq_plus1 drop_Suc in_set_dropD tl_drop set_drop_subset subsetD drop_drop add.commute)
    with 1(1) True sp have "skip_whitespace s (idx + 1) = max (idx + 1) (length s)" by simp
    moreover have "skip_whitespace s idx = skip_whitespace s (idx + 1)"
      using True sp by (subst skip_whitespace.simps) simp
    ultimately show ?thesis using True by simp
  next
    case False
    then show ?thesis by (subst skip_whitespace.simps) simp
  qed
qed

text \<open>
  Claim C10. For a needle that is not empty and consists of whitespace only, the search
  returns \<open>-1\<close> for every haystack and every start offset; the empty needle returns the
  start offset instead.
\<close>

theorem find_whitespace_only_needle:
  assumes "needle \<noteq> []" and "\<forall>c \<in> set needle. isspace c"
  shows "find_ignoring_whitespace haystack needle start_offset = - 1
         \<and> find_ignoring_whitespace haystack [] start_offset = int start_offset"
proof -
  have skip: "skip_whitespace needle 0 = length needle"
    using skip_whitespace_all [of 0 needle] assms(2) by simp
  have "find_loop haystack needle start_offset 0 (- 1) = - 1"
    by (subst find_loop.simps) (simp add: Let_def find_after_loop_def skip)
  then show ?thesis
    using assms(1) by (simp add: find_ignoring_whitespace_def)
qed

theorem find_whitespace_only_needle_witness:
  "'' \<newline> '' \<noteq> [] \<and> isspace CHR '' '' \<and> isspace CHR ''\<newline>''
   \<and> find_ignoring_whitespace ''a b'' '' \<newline> '' 1 = - 1
   \<and> find_ignoring_whitespace ''a b'' [] 1 = 1"
proof -
  have h1: "'' \<newline> '' \<noteq> []" by simp
  have h2: "\<forall>c \<in> set '' \<newline> ''. isspace c" by (simp add: isspace_def)
  have h3: "isspace CHR '' '' \<and> isspace CHR ''\<newline>''" by (simp add: isspace_def)
  from find_whitespace_only_needle [OF h1 h2, of "''a b''" 1] h1 h3 show ?thesis by simp
qed

section \<open>Properties of the text extraction\<close>

lemma foldl_extract_conv:
  "foldl (\<lambda>acc page_num. let page_text = pgs ! page_num
                           in if page_text \<noteq> [] then acc @ page_text else acc) acc ns
     = acc @ concat (map (\<lambda>n. pgs ! n) ns)"
  by (induction ns arbitrary: acc) (simp_all add: Let_def)

lemma extract_pages_concat:
  "extract_pages pgs a b = concat (map (\<lambda>n. pgs ! n) [a..<b])"
  by (simp add: extract_pages_def foldl_extract_conv)

lemma extract_pages_all:
  "extract_pages pgs 0 (length pgs) = concat pgs"
  by (simp add: extract_pages_concat map_nth)

text \<open>
  Claim C8. A document without an outline whose pages give some text is not a failure:
  the result is exactly one chapter, under the fallback title
  \<open>Full Text (No Bookmarks)\<close>, at level 0, and its text is the text of all pages in order.
\<close>

theorem no_outline_fallback:
  assumes "outline reader = []" and "concat (pages reader) \<noteq> []"
  shows "split_text_by_bookmarks reader =
           Some [(''Full Text (No Bookmarks)'',
                  \<lparr>entry_text = concat (pages reader), entry_level = 0\<rparr>)]"
  using assms by (simp add: split_text_by_bookmarks_def extract_pages_all)

theorem no_outline_fallback_witness:
  "outline \<lparr>outline = [], pages = [''hello'']\<rparr> = []
   \<and> concat (pages \<lparr>outline = [], pages = [''hello'']\<rparr>) \<noteq> []
   \<and> split_text_by_bookmarks \<lparr>outline = [], pages = [''hello'']\<rparr> =
        Some [(''Full Text (No Bookmarks)'', \<lparr>entry_text = ''hello'', entry_level = 0\<rparr>)]"
  using no_outline_fallback [of "\<lparr>outline = [], pages = [''hello'']\<rparr>"] by simp

lemma raw_chapter_text_in_range:
  assumes "0 \<le> start_page" and "start_page < int (length pgs)"
  shows "raw_chapter_text pgs start_page end_page =
           concat (map ((!) pgs) [nat start_page..<nat (min (end_page + 1) (int (length pgs)))])"
proof (cases "start_page < min (end_page + 1) (int (length pgs))")
  case True
  with assms show ?thesis
    by (simp add: raw_chapter_text_def extract_pages_concat Let_def)
next
  case False
  then have "nat (min (end_page + 1) (int (length pgs))) \<le> nat start_page"
    using assms by simp
  then have "[nat start_page..<nat (min (end_page + 1) (int (length pgs)))] = []"
    by simp
  with False assms show ?thesis
    by (simp add: raw_chapter_text_def Let_def)
qed

text \<open>
  Claim C1, as amended. For an entry of the sorted list whose start page lies within the
  document, the raw text of the chapter is the concatenation, in page order, of the page
  texts from the start page up to and including the start page of the next entry (clipped
  to the document), and up to the last page for the last entry. Pages without text
  contribute nothing.
\<close>

theorem chapter_raw_text_pages:
  assumes "i < length sorted_info"
    and "0 \<le> page_of (sorted_info ! i)" and "page_of (sorted_info ! i) < int (length pgs)"
  shows "raw_chapter_text pgs (page_of (sorted_info ! i)) (end_page_of pgs sorted_info i) =
           concat (map ((!) pgs)
             [nat (page_of (sorted_info ! i))..<
                (if i + 1 < length sorted_info
                 then nat (min (page_of (sorted_info ! (i + 1)) + 1) (int (length pgs)))
                 else length pgs)])"
  using raw_chapter_text_in_range [OF assms(2,3), of "end_page_of pgs sorted_info i"]
  by (simp add: end_page_of_def)

theorem chapter_raw_text_pages_witness:
  "(0::nat) < length [(''A'', 0::int, 0::nat), (''B'', 1, 0)]
   \<and> 0 \<le> page_of ([(''A'', 0, 0), (''B'', 1, 0)] ! 0)
   \<and> page_of ([(''A'', 0, 0), (''B'', 1, 0)] ! 0) < int (length [''x'', ''y'', ''z''])
   \<and> raw_chapter_text [''x'', ''y'', ''z''] (page_of ([(''A'', 0, 0), (''B'', 1, 0)] ! 0))
        (end_page_of [''x'', ''y'', ''z''] [(''A'', 0, 0), (''B'', 1, 0)] 0) = ''xy''"
proof -
  have h1: "(0::nat) < length [(''A'', 0::int, 0::nat), (''B'', 1, 0)]" by simp
  have h2: "0 \<le> page_of ([(''A'', 0, 0), (''B'', 1, 0)] ! 0)" by (simp add: page_of_def)
  have h3: "page_of ([(''A'', 0, 0), (''B'', 1, 0)] ! 0) < int (length [''x'', ''y'', ''z''])"
    by (simp add: page_of_def)
  have "[0..<2] = [0, Suc 0]" by (simp add: upt_rec)
  with chapter_raw_text_pages [OF h1 h2 h3] h1 h2 h3 show ?thesis
    by (simp add: page_of_def)
qed

text \<open>
  Claim C1 as stated fails: with a bookmark on each of two pages, the raw text of the
  first chapter holds both pages, while the half-open interval up to the start page of the
  next entry holds the first page only.
\<close>

theorem chapter_raw_text_half_open_counterexample:
  "raw_chapter_text (pages two_page_reader)
       (page_of (sorted_bookmarks (get_bookmarks (outline two_page_reader) 0 []) ! 0))
       (end_page_of (pages two_page_reader)
          (sorted_bookmarks (get_bookmarks (outline two_page_reader) 0 [])) 0) = ''xy''
   \<and> spec_chapter_text (pages two_page_reader)
       (page_of (sorted_bookmarks (get_bookmarks (outline two_page_reader) 0 []) ! 0))
       (end_page_of (pages two_page_reader)
          (sorted_bookmarks (get_bookmarks (outline two_page_reader) 0 [])) 0) = ''x''
   \<and> split_text_by_bookmarks two_page_reader =
       Some [(''A'', \<lparr>entry_text = ''xy'', entry_level = 0\<rparr>),
             (''B'', \<lparr>entry_text = ''y'', entry_level = 0\<rparr>)]"
  by code_simp

section \<open>Properties of the range resolution\<close>

lemma sorted_bookmarks_sorted: "sorted (map page_of (sorted_bookmarks info))"
  by (simp add: sorted_bookmarks_def)

lemma length_sorted_bookmarks: "length (sorted_bookmarks info) = length info"
  by (simp add: sorted_bookmarks_def)

lemma raw_chapter_text_page_range:
  "raw_chapter_text pgs start_page end_page
     = concat (map ((!) pgs) (chapter_page_range pgs start_page end_page))"
  by (simp add: raw_chapter_text_def chapter_page_range_def extract_pages_concat Let_def)

lemma chapter_page_range_in_range:
  assumes "0 \<le> start_page" and "start_page < int (length pgs)"
  shows "chapter_page_range pgs start_page end_page
           = [nat start_page..<nat (min (end_page + 1) (int (length pgs)))]"
proof (cases "start_page < min (end_page + 1) (int (length pgs))")
  case True
  with assms show ?thesis by (simp add: chapter_page_range_def Let_def)
next
  case False
  then have "nat (min (end_page + 1) (int (length pgs))) \<le> nat start_page"
    using assms by simp
  then have "[nat start_page..<nat (min (end_page + 1) (int (length pgs)))] = []"
    by simp
  with False assms show ?thesis by (simp add: chapter_page_range_def Let_def)
qed

text \<open>
  Claim C7, as amended. The collected entries are sorted by page, ascending, and entries
  with the same page keep their relative order; entry \<open>i\<close> of the sorted list starts at
  its own page, and its end page is the page of entry \<open>i + 1\<close>, or the number of pages for
  the last entry. The pages read for an entry whose start page lies within the document
  run from its start page up to and including its end page, clipped to the document: the
  range of entry \<open>i\<close> is closed at the start page of entry \<open>i + 1\<close>, not half-open.
\<close>

theorem range_resolution:
  "sorted (map page_of (sorted_bookmarks info))
   \<and> mset (sorted_bookmarks info) = mset info
   \<and> (\<forall>p. filter (\<lambda>item. page_of item = p) (sorted_bookmarks info)
           = filter (\<lambda>item. page_of item = p) info)
   \<and> (\<forall>i. i + 1 < length info \<longrightarrow>
          end_page_of pgs (sorted_bookmarks info) i = page_of (sorted_bookmarks info ! (i + 1))
          \<and> page_of (sorted_bookmarks info ! i) \<le> end_page_of pgs (sorted_bookmarks info) i)
   \<and> (\<forall>i. i < length info \<and> \<not> i + 1 < length info \<longrightarrow>
          end_page_of pgs (sorted_bookmarks info) i = int (length pgs))
   \<and> (\<forall>i. i < length info \<and> 0 \<le> page_of (sorted_bookmarks info ! i)
            \<and> page_of (sorted_bookmarks info ! i) < int (length pgs) \<longrightarrow>
          chapter_page_range pgs (page_of (sorted_bookmarks info ! i))
              (end_page_of pgs (sorted_bookmarks info) i)
            = [nat (page_of (sorted_bookmarks info ! i))..<
                 (if i + 1 < length info
                  then nat (min (page_of (sorted_bookmarks info ! (i + 1)) + 1) (int (length pgs)))
                  else length pgs)])
   \<and> (\<forall>i. raw_chapter_text pgs (page_of (sorted_bookmarks info ! i))
              (end_page_of pgs (sorted_bookmarks info) i)
            = concat (map ((!) pgs)
                (chapter_page_range pgs (page_of (sorted_bookmarks info ! i))
                   (end_page_of pgs (sorted_bookmarks info) i))))"
proof (intro conjI allI impI)
  show "sorted (map page_of (sorted_bookmarks info))"
    by (rule sorted_bookmarks_sorted)
  show "mset (sorted_bookmarks info) = mset info"
    by (simp add: sorted_bookmarks_def)
  show "filter (\<lambda>item. page_of item = p) (sorted_bookmarks info)
          = filter (\<lambda>item. page_of item = p) info" for p
    by (simp add: sorted_bookmarks_def sort_key_stable)
  show "raw_chapter_text pgs (page_of (sorted_bookmarks info ! i))
              (end_page_of pgs (sorted_bookmarks info) i)
            = concat (map ((!) pgs)
                (chapter_page_range pgs (page_of (sorted_bookmarks info ! i))
                   (end_page_of pgs (sorted_bookmarks info) i)))" for i
    by (rule raw_chapter_text_page_range)
next
  fix i
  assume i: "i + 1 < length info"
  show "end_page_of pgs (sorted_bookmarks info) i = page_of (sorted_bookmarks info ! (i + 1))"
    using i by (simp add: end_page_of_def length_sorted_bookmarks)
  have "map page_of (sorted_bookmarks info) ! i \<le> map page_of (sorted_bookmarks info) ! (i + 1)"
    using sorted_bookmarks_sorted [of info] i
    by (intro sorted_nth_mono) (simp_all add: length_sorted_bookmarks)
  then show "page_of (sorted_bookmarks info ! i) \<le> end_page_of pgs (sorted_bookmarks info) i"
    using i by (simp add: end_page_of_def length_sorted_bookmarks)
next
  fix i
  assume "i < length info \<and> \<not> i + 1 < length info"
  then show "end_page_of pgs (sorted_bookmarks info) i = int (length pgs)"
    by (simp add: end_page_of_def length_sorted_bookmarks)
next
  fix i
  assume "i < length info \<and> 0 \<le> page_of (sorted_bookmarks info ! i)
            \<and> page_of (sorted_bookmarks info ! i) < int (length pgs)"
  then have lo: "0 \<le> page_of (sorted_bookmarks info ! i)"
    and hi: "page_of (sorted_bookmarks info ! i) < int (length pgs)"
    by simp_all
  show "chapter_page_range pgs (page_of (sorted_bookmarks info ! i))
              (end_page_of pgs (sorted_bookmarks info) i)
            = [nat (page_of (sorted_bookmarks info ! i))..<
                 (if i + 1 < length info
                  then nat (min (page_of (sorted_bookmarks info ! (i + 1)) + 1) (int (length pgs)))
                  else length pgs)]"
    using chapter_page_range_in_range [OF lo hi, of "end_page_of pgs (sorted_bookmarks info) i"]
    by (simp add: end_page_of_def length_sorted_bookmarks)
qed

theorem range_resolution_witness:
  "sorted_bookmarks [(''e'', 5, 0), (''b'', 2, 1), (''i'', 9, 0), (''f'', 5, 2)]
     = [(''b'', 2, 1), (''e'', 5, 0), (''f'', 5, 2), (''i'', 9, 0)]
   \<and> sorted_bookmarks three_bookmarks = [(''b'', 2, 1), (''e'', 5, 0), (''i'', 9, 0)]
   \<and> (0::nat) + 1 < length three_bookmarks
   \<and> end_page_of twelve_pages (sorted_bookmarks three_bookmarks) 0 = 5
   \<and> (2::nat) < length three_bookmarks
   \<and> \<not> (2::nat) + 1 < length three_bookmarks
   \<and> end_page_of twelve_pages (sorted_bookmarks three_bookmarks) 2 = 12
   \<and> 0 \<le> page_of (sorted_bookmarks three_bookmarks ! 0)
   \<and> page_of (sorted_bookmarks three_bookmarks ! 0) < int (length twelve_pages)
   \<and> chapter_page_range twelve_pages (page_of (sorted_bookmarks three_bookmarks ! 0))
        (end_page_of twelve_pages (sorted_bookmarks three_bookmarks) 0) = [2, 3, 4, 5]
   \<and> chapter_page_range twelve_pages (page_of (sorted_bookmarks three_bookmarks ! 2))
        (end_page_of twelve_pages (sorted_bookmarks three_bookmarks) 2) = [9, 10, 11]"
proof -
  note rr = range_resolution [of three_bookmarks twelve_pages]
  have s4: "sorted_bookmarks [(''e'', 5, 0), (''b'', 2, 1), (''i'', 9, 0), (''f'', 5, 2)]
     = [(''b'', 2, 1), (''e'', 5, 0), (''f'', 5, 2), (''i'', 9, 0)]"
    by code_simp
  have s3: "sorted_bookmarks three_bookmarks = [(''b'', 2, 1), (''e'', 5, 0), (''i'', 9, 0)]"
    by code_simp
  have h0: "(0::nat) + 1 < length three_bookmarks"
    by (simp add: three_bookmarks_def)
  have h2: "(2::nat) < length three_bookmarks \<and> \<not> (2::nat) + 1 < length three_bookmarks"
    by (simp add: three_bookmarks_def)
  have p1: "page_of (sorted_bookmarks three_bookmarks ! (0 + 1)) = 5"
    by code_simp
  have lo0: "0 \<le> page_of (sorted_bookmarks three_bookmarks ! 0)"
    by code_simp
  have hi0: "page_of (sorted_bookmarks three_bookmarks ! 0) < int (length twelve_pages)"
    by code_simp
  have lo2: "0 \<le> page_of (sorted_bookmarks three_bookmarks ! 2)"
    by code_simp
  have hi2: "page_of (sorted_bookmarks three_bookmarks ! 2) < int (length twelve_pages)"
    by code_simp
  have len: "int (length twelve_pages) = 12"
    by (simp add: twelve_pages_def)
  have r0: "[nat (page_of (sorted_bookmarks three_bookmarks ! 0))..<
               (if 0 + 1 < length three_bookmarks
                then nat (min (page_of (sorted_bookmarks three_bookmarks ! (0 + 1)) + 1) (int (length twelve_pages)))
                else length twelve_pages)] = [2, 3, 4, 5]"
    by code_simp
  have r2: "[nat (page_of (sorted_bookmarks three_bookmarks ! 2))..<
               (if 2 + 1 < length three_bookmarks
                then nat (min (page_of (sorted_bookmarks three_bookmarks ! (2 + 1)) + 1) (int (length twelve_pages)))
                else length twelve_pages)] = [9, 10, 11]"
    by code_simp
  from rr h0 have "end_page_of twelve_pages (sorted_bookmarks three_bookmarks) 0
       = page_of (sorted_bookmarks three_bookmarks ! (0 + 1))"
    by blast
  with p1 have e0: "end_page_of twelve_pages (sorted_bookmarks three_bookmarks) 0 = 5"
    by simp
  from rr h2 have "end_page_of twelve_pages (sorted_bookmarks three_bookmarks) 2
       = int (length twelve_pages)"
    by blast
  with len have e2: "end_page_of twelve_pages (sorted_bookmarks three_bookmarks) 2 = 12"
    by simp
  from rr h0 lo0 hi0
  have "chapter_page_range twelve_pages (page_of (sorted_bookmarks three_bookmarks ! 0))
        (end_page_of twelve_pages (sorted_bookmarks three_bookmarks) 0)
        = [nat (page_of (sorted_bookmarks three_bookmarks ! 0))..<
               (if 0 + 1 < length three_bookmarks
                then nat (min (page_of (sorted_bookmarks three_bookmarks ! (0 + 1)) + 1) (int (length twelve_pages)))
                else length twelve_pages)]"
    by (metis add_lessD1)
  with r0 have c0: "chapter_page_range twelve_pages (page_of (sorted_bookmarks three_bookmarks ! 0))
        (end_page_of twelve_pages (sorted_bookmarks three_bookmarks) 0) = [2, 3, 4, 5]"
    by simp
  from rr h2 lo2 hi2
  have "chapter_page_range twelve_pages (page_of (sorted_bookmarks three_bookmarks ! 2))
        (end_page_of twelve_pages (sorted_bookmarks three_bookmarks) 2)
        = [nat (page_of (sorted_bookmarks three_bookmarks ! 2))..<
               (if 2 + 1 < length three_bookmarks
                then nat (min (page_of (sorted_bookmarks three_bookmarks ! (2 + 1)) + 1) (int (length twelve_pages)))
                else length twelve_pages)]"
    by blast
  with r2 have c2: "chapter_page_range twelve_pages (page_of (sorted_bookmarks three_bookmarks ! 2))
        (end_page_of twelve_pages (sorted_bookmarks three_bookmarks) 2) = [9, 10, 11]"
    by simp
  from s4 s3 h0 h2 e0 e2 lo0 hi0 c0 c2 show ?thesis by blast
qed

text \<open>
  Claim C7 as stated fails on its own example: with entries at the pages 5, 2 and 9 of
  twelve pages the first entry of the sorted list reads the pages 2 to 5 and the second
  the pages 5 to 9, while the half-open ranges from 2 to 5 and from 5 to 9 end one page
  earlier.
\<close>

theorem range_resolution_counterexample:
  "chapter_page_range twelve_pages (page_of (sorted_bookmarks three_bookmarks ! 0))
       (end_page_of twelve_pages (sorted_bookmarks three_bookmarks) 0) = [2, 3, 4, 5]
   \<and> [2..<5] = [2, 3, 4 :: nat]
   \<and> chapter_page_range twelve_pages (page_of (sorted_bookmarks three_bookmarks ! 1))
       (end_page_of twelve_pages (sorted_bookmarks three_bookmarks) 1) = [5, 6, 7, 8, 9]
   \<and> [5..<9] = [5, 6, 7, 8 :: nat]
   \<and> raw_chapter_text twelve_pages (page_of (sorted_bookmarks three_bookmarks ! 0))
       (end_page_of twelve_pages (sorted_bookmarks three_bookmarks) 0) = ''p2p3p4p5''
   \<and> spec_chapter_text twelve_pages 2 5 = ''p2p3p4''
   \<and> raw_chapter_text twelve_pages (page_of (sorted_bookmarks three_bookmarks ! 1))
       (end_page_of twelve_pages (sorted_bookmarks three_bookmarks) 1) = ''p5p6p7p8p9''
   \<and> spec_chapter_text twelve_pages 5 9 = ''p5p6p7p8''"
  by code_simp

section \<open>Properties of the refinement by titles\<close>

lemma find_after_loop_ge: "- 1 \<le> potential_start \<Longrightarrow> - 1 \<le> find_after_loop needle n_idx potential_start"
  by (simp add: find_after_loop_def Let_def)

lemma find_loop_ge:
  "- 1 \<le> potential_start \<Longrightarrow> - 1 \<le> find_loop haystack needle h_idx n_idx potential_start"
proof (induction haystack needle h_idx n_idx potential_start rule: find_loop.induct)
  case (1 haystack needle h_idx n_idx potential_start)
  define h where "h = skip_whitespace haystack h_idx"
  define n where "n = skip_whitespace needle n_idx"
  note IH = "1.IH" [OF _ h_def _ n_def]
  show ?case
  proof (cases "h_idx < length haystack \<and> h \<noteq> length haystack \<and> n \<noteq> length needle")
    case False
    then show ?thesis
      using "1.prems"
      by (subst find_loop.simps)
        (auto simp: Let_def h_def [symmetric] n_def [symmetric] find_after_loop_ge)
  next
    case True
    show ?thesis
    proof (cases "haystack ! h = needle ! n")
      case match: True
      have "- 1 \<le> (if n = 0 then int h else potential_start)"
        using "1.prems" by simp
      with IH(1) True match
      have "- 1 \<le> find_loop haystack needle (h + 1) (n + 1) (if n = 0 then int h else potential_start)"
        by blast
      then show ?thesis
        using True match
        by (subst find_loop.simps) (simp add: Let_def h_def [symmetric] n_def [symmetric])
    next
      case mismatch: False
      show ?thesis
      proof (cases "potential_start \<noteq> - 1")
        case True': True
        with IH(2) True mismatch
        have "- 1 \<le> find_loop haystack needle (nat potential_start + 1) 0 (- 1)"
          by simp
        then show ?thesis
          using True mismatch True'
          by (subst find_loop.simps) (simp add: Let_def h_def [symmetric] n_def [symmetric])
      next
        case False': False
        with IH(3) True mismatch
        have "- 1 \<le> find_loop haystack needle (h + 1) 0 (- 1)"
          by simp
        then show ?thesis
          using True mismatch False'
          by (subst find_loop.simps) (simp add: Let_def h_def [symmetric] n_def [symmetric])
      qed
    qed
  qed
qed

lemma find_ignoring_whitespace_ge: "- 1 \<le> find_ignoring_whitespace haystack needle start_offset"
  by (simp add: find_ignoring_whitespace_def find_loop_ge)

lemma slice_nat: "slice s (int a) (int b) = drop a (take b s)"
  by (simp add: slice_def slice_bound_def min_def)

lemma slice_from_nat: "slice_from s (int a) = drop a s"
  by (simp add: slice_from_def slice_bound_def min_def)

lemma refine_text_cases:
  assumes "raw \<noteq> []"
  shows "(find_ignoring_whitespace raw title 0 = - 1 \<longrightarrow> refine_text raw title next_title = raw)
       \<and> (find_ignoring_whitespace raw title 0 \<noteq> - 1 \<longrightarrow>
            (\<exists>start_pos. find_ignoring_whitespace raw title 0 = int start_pos
               \<and> (next_title \<noteq> []
                    \<and> find_ignoring_whitespace raw next_title (start_pos + length title) \<noteq> - 1 \<longrightarrow>
                    (\<exists>end_pos.
                       find_ignoring_whitespace raw next_title (start_pos + length title) = int end_pos
                       \<and> refine_text raw title next_title
                           = drop (start_pos + length title) (take end_pos raw)))
               \<and> (next_title = []
                    \<or> find_ignoring_whitespace raw next_title (start_pos + length title) = - 1 \<longrightarrow>
                    refine_text raw title next_title = drop (start_pos + length title) raw)))"
proof (intro conjI impI)
  assume "find_ignoring_whitespace raw title 0 = - 1"
  with assms show "refine_text raw title next_title = raw"
    by (simp add: refine_text_def)
next
  assume found: "find_ignoring_whitespace raw title 0 \<noteq> - 1"
  with find_ignoring_whitespace_ge [of raw title 0]
  have "0 \<le> find_ignoring_whitespace raw title 0" by simp
  then obtain start_pos where sp: "find_ignoring_whitespace raw title 0 = int start_pos"
    using nonneg_int_cases by blast
  let ?si = "start_pos + length title"
  have a: "\<exists>end_pos. find_ignoring_whitespace raw next_title ?si = int end_pos
             \<and> refine_text raw title next_title = drop ?si (take end_pos raw)"
    if "next_title \<noteq> [] \<and> find_ignoring_whitespace raw next_title ?si \<noteq> - 1"
  proof -
    from that find_ignoring_whitespace_ge [of raw next_title ?si]
    have "0 \<le> find_ignoring_whitespace raw next_title ?si" by simp
    then obtain end_pos where ep: "find_ignoring_whitespace raw next_title ?si = int end_pos"
      using nonneg_int_cases by blast
    have "refine_text raw title next_title = drop ?si (take end_pos raw)"
      using assms that sp ep
      by (simp add: refine_text_def Let_def of_nat_add [symmetric] slice_nat del: of_nat_add)
    with ep show ?thesis by simp
  qed
  have b: "refine_text raw title next_title = drop ?si raw"
    if "next_title = [] \<or> find_ignoring_whitespace raw next_title ?si = - 1"
    using assms that sp
    by (auto simp add: refine_text_def Let_def of_nat_add [symmetric] slice_from_nat
        simp del: of_nat_add)
  from sp a b
  show "\<exists>start_pos. find_ignoring_whitespace raw title 0 = int start_pos
               \<and> (next_title \<noteq> []
                    \<and> find_ignoring_whitespace raw next_title (start_pos + length title) \<noteq> - 1 \<longrightarrow>
                    (\<exists>end_pos.
                       find_ignoring_whitespace raw next_title (start_pos + length title) = int end_pos
                       \<and> refine_text raw title next_title
                           = drop (start_pos + length title) (take end_pos raw)))
               \<and> (next_title = []
                    \<or> find_ignoring_whitespace raw next_title (start_pos + length title) = - 1 \<longrightarrow>
                    refine_text raw title next_title = drop (start_pos + length title) raw)"
    by blast
qed

text \<open>
  What \<open>strip\<close> does: it removes a run of whitespace at the front and a run of whitespace
  at the back, and what it leaves neither begins nor ends with whitespace.
\<close>

lemma strip_removes_whitespace:
  "\<exists>front back. s = front @ strip s @ back
      \<and> list_all isspace front \<and> list_all isspace back
      \<and> (strip s = [] \<or> (\<not> isspace (hd (strip s)) \<and> \<not> isspace (last (strip s))))"
proof -
  define t where "t = dropWhile isspace s"
  define front where "front = takeWhile isspace s"
  define trail where "trail = rev (takeWhile isspace (rev t))"
  have st: "strip s = rev (dropWhile isspace (rev t))"
    by (simp add: strip_def t_def)
  have "rev (takeWhile isspace (rev t) @ dropWhile isspace (rev t)) = rev (rev t)"
    by (simp only: takeWhile_dropWhile_id)
  then have "rev (dropWhile isspace (rev t)) @ rev (takeWhile isspace (rev t)) = t"
    by (simp only: rev_append rev_rev_ident)
  then have t_split: "t = strip s @ trail"
    by (simp only: st trail_def)
  have "s = front @ t"
    by (simp add: front_def t_def)
  with t_split have whole: "s = front @ strip s @ trail"
    by simp
  have f: "list_all isspace front"
    by (auto simp: front_def list_all_iff dest: set_takeWhileD)
  have b: "list_all isspace trail"
    by (auto simp: trail_def list_all_iff dest: set_takeWhileD)
  have ends: "\<not> isspace (hd (strip s)) \<and> \<not> isspace (last (strip s))" if ne: "strip s \<noteq> []"
  proof -
    from ne have d: "dropWhile isspace (rev t) \<noteq> []"
      by (simp add: st)
    then have "\<not> isspace (hd (dropWhile isspace (rev t)))"
      by (rule hd_dropWhile)
    then have l: "\<not> isspace (last (strip s))"
      using d by (simp add: st last_rev)
    from ne t_split have "t \<noteq> []" by auto
    then have "\<not> isspace (hd t)"
      unfolding t_def by (rule hd_dropWhile)
    moreover have "hd t = hd (strip s)"
      using t_split ne by (metis hd_append2)
    ultimately show ?thesis using l by simp
  qed
  from whole f b ends show ?thesis by blast
qed

lemma stored_text_of_chapter:
  "entry_text (snd (chapter_at pgs sorted_info i))
     = strip (refine_text
         (raw_chapter_text pgs (page_of (sorted_info ! i)) (end_page_of pgs sorted_info i))
         (title_of (sorted_info ! i)) (next_title_of sorted_info i))"
  by (simp add: chapter_at_def Let_def)

text \<open>
  Claim C6. Let \<open>raw\<close> be the raw text of the chapter of entry \<open>i\<close> of the sorted list,
  not empty, \<open>title\<close> the title of the entry and \<open>next_title\<close> the title of the next
  entry (empty when there is none). When the search does not find \<open>title\<close> in \<open>raw\<close>,
  the text stored for the chapter is \<open>raw\<close>, stripped. When it finds \<open>title\<close> at
  \<open>start_pos\<close>, the stored text is the slice of \<open>raw\<close> that begins at \<open>start_pos\<close> plus the
  length of \<open>title\<close> and ends just before the position where the search, started there,
  finds \<open>next_title\<close>, when there is a next title and it is found, and at the end of
  \<open>raw\<close> otherwise; this slice is stored stripped. Stripping removes a run of whitespace
  at each end and leaves a text that neither begins nor ends with whitespace.
\<close>

theorem refine_text_by_titles:
  assumes "raw = raw_chapter_text pgs (page_of (sorted_info ! i)) (end_page_of pgs sorted_info i)"
    and "title = title_of (sorted_info ! i)"
    and "next_title = next_title_of sorted_info i"
    and "raw \<noteq> []"
  shows "(find_ignoring_whitespace raw title 0 = - 1 \<longrightarrow>
            entry_text (snd (chapter_at pgs sorted_info i)) = strip raw)
       \<and> (find_ignoring_whitespace raw title 0 \<noteq> - 1 \<longrightarrow>
            (\<exists>start_pos. find_ignoring_whitespace raw title 0 = int start_pos
               \<and> (next_title \<noteq> []
                    \<and> find_ignoring_whitespace raw next_title (start_pos + length title) \<noteq> - 1 \<longrightarrow>
                    (\<exists>end_pos.
                       find_ignoring_whitespace raw next_title (start_pos + length title) = int end_pos
                       \<and> entry_text (snd (chapter_at pgs sorted_info i))
                           = strip (drop (start_pos + length title) (take end_pos raw))))
               \<and> (next_title = []
                    \<or> find_ignoring_whitespace raw next_title (start_pos + length title) = - 1 \<longrightarrow>
                    entry_text (snd (chapter_at pgs sorted_info i))
                      = strip (drop (start_pos + length title) raw))))
       \<and> (\<forall>s. \<exists>front back. s = front @ strip s @ back
              \<and> list_all isspace front \<and> list_all isspace back
              \<and> (strip s = [] \<or> (\<not> isspace (hd (strip s)) \<and> \<not> isspace (last (strip s)))))"
proof -
  have stored: "entry_text (snd (chapter_at pgs sorted_info i))
                  = strip (refine_text raw title next_title)"
    unfolding assms(1,2,3) by (rule stored_text_of_chapter)
  note cases = refine_text_cases [OF assms(4), of title next_title]
  have not_found: "entry_text (snd (chapter_at pgs sorted_info i)) = strip raw"
    if "find_ignoring_whitespace raw title 0 = - 1"
    using cases that stored by simp
  have found: "\<exists>start_pos. find_ignoring_whitespace raw title 0 = int start_pos
               \<and> (next_title \<noteq> []
                    \<and> find_ignoring_whitespace raw next_title (start_pos + length title) \<noteq> - 1 \<longrightarrow>
                    (\<exists>end_pos.
                       find_ignoring_whitespace raw next_title (start_pos + length title) = int end_pos
                       \<and> entry_text (snd (chapter_at pgs sorted_info i))
                           = strip (drop (start_pos + length title) (take end_pos raw))))
               \<and> (next_title = []
                    \<or> find_ignoring_whitespace raw next_title (start_pos + length title) = - 1 \<longrightarrow>
                    entry_text (snd (chapter_at pgs sorted_info i))
                      = strip (drop (start_pos + length title) raw))"
    if "find_ignoring_whitespace raw title 0 \<noteq> - 1"
  proof -
    from cases that obtain start_pos where
      sp: "find_ignoring_whitespace raw title 0 = int start_pos" and
      nxt: "next_title \<noteq> []
              \<and> find_ignoring_whitespace raw next_title (start_pos + length title) \<noteq> - 1 \<longrightarrow>
            (\<exists>end_pos.
                find_ignoring_whitespace raw next_title (start_pos + length title) = int end_pos
                \<and> refine_text raw title next_title
                    = drop (start_pos + length title) (take end_pos raw))" and
      last: "next_title = []
              \<or> find_ignoring_whitespace raw next_title (start_pos + length title) = - 1 \<longrightarrow>
            refine_text raw title next_title = drop (start_pos + length title) raw"
      by blast
    from nxt stored
    have "next_title \<noteq> []
              \<and> find_ignoring_whitespace raw next_title (start_pos + length title) \<noteq> - 1 \<longrightarrow>
            (\<exists>end_pos.
                find_ignoring_whitespace raw next_title (start_pos + length title) = int end_pos
                \<and> entry_text (snd (chapter_at pgs sorted_info i))
                    = strip (drop (start_pos + length title) (take end_pos raw)))"
      by auto
    moreover from last stored
    have "next_title = []
              \<or> find_ignoring_whitespace raw next_title (start_pos + length title) = - 1 \<longrightarrow>
            entry_text (snd (chapter_at pgs sorted_info i))
              = strip (drop (start_pos + length title) raw)"
      by auto
    ultimately show ?thesis using sp by blast
  qed
  from not_found found strip_removes_whitespace show ?thesis by blast
qed

theorem refine_text_by_titles_witness:
  "example_chapter_text
     = raw_chapter_text (pages refinement_reader) (page_of (refinement_bookmarks ! 0))
         (end_page_of (pages refinement_reader) refinement_bookmarks 0)
   \<and> ''Intro'' = title_of (refinement_bookmarks ! 0)
   \<and> ''Chapter 2'' = next_title_of refinement_bookmarks 0
   \<and> example_chapter_text \<noteq> []
   \<and> find_ignoring_whitespace example_chapter_text ''Intro'' 0 = 6
   \<and> find_ignoring_whitespace example_chapter_text ''Chapter 2'' (6 + length ''Intro'') = 25
   \<and> entry_text (snd (chapter_at (pages refinement_reader) refinement_bookmarks 0)) = ''real content''
   \<and> sorted_bookmarks (get_bookmarks (outline refinement_reader) 0 []) = refinement_bookmarks
   \<and> split_text_by_bookmarks refinement_reader
       = Some [(''Intro'', \<lparr>entry_text = ''real content'', entry_level = 0\<rparr>),
               (''Chapter 2'', \<lparr>entry_text = ''more'', entry_level = 0\<rparr>)]"
proof -
  have h1: "example_chapter_text
     = raw_chapter_text (pages refinement_reader) (page_of (refinement_bookmarks ! 0))
         (end_page_of (pages refinement_reader) refinement_bookmarks 0)"
    by code_simp
  have h2: "''Intro'' = title_of (refinement_bookmarks ! 0)"
    by code_simp
  have h3: "''Chapter 2'' = next_title_of refinement_bookmarks 0"
    by code_simp
  have ne: "example_chapter_text \<noteq> []"
    by (simp add: example_chapter_text_def)
  have f1: "find_ignoring_whitespace example_chapter_text ''Intro'' 0 = int 6"
    by code_simp
  have f2: "find_ignoring_whitespace example_chapter_text ''Chapter 2'' (6 + length ''Intro'') = int 25"
    by code_simp
  have s1: "strip (drop (6 + length ''Intro'') (take 25 example_chapter_text)) = ''real content''"
    by code_simp
  have srt: "sorted_bookmarks (get_bookmarks (outline refinement_reader) 0 []) = refinement_bookmarks"
    by code_simp
  have run: "split_text_by_bookmarks refinement_reader
       = Some [(''Intro'', \<lparr>entry_text = ''real content'', entry_level = 0\<rparr>),
               (''Chapter 2'', \<lparr>entry_text = ''more'', entry_level = 0\<rparr>)]"
    by code_simp
  note rt = refine_text_by_titles [OF h1 h2 h3 ne]
  from rt f1 obtain start_pos where
    sp: "find_ignoring_whitespace example_chapter_text ''Intro'' 0 = int start_pos" and
    nxt: "''Chapter 2'' \<noteq> []
          \<and> find_ignoring_whitespace example_chapter_text ''Chapter 2'' (start_pos + length ''Intro'') \<noteq> - 1 \<longrightarrow>
          (\<exists>end_pos.
              find_ignoring_whitespace example_chapter_text ''Chapter 2'' (start_pos + length ''Intro'') = int end_pos
              \<and> entry_text (snd (chapter_at (pages refinement_reader) refinement_bookmarks 0))
                  = strip (drop (start_pos + length ''Intro'') (take end_pos example_chapter_text)))"
    by auto
  from sp f1 have sp6: "start_pos = 6" by simp
  from nxt f2 obtain end_pos where
    ep: "find_ignoring_whitespace example_chapter_text ''Chapter 2'' (6 + length ''Intro'') = int end_pos" and
    st: "entry_text (snd (chapter_at (pages refinement_reader) refinement_bookmarks 0))
           = strip (drop (6 + length ''Intro'') (take end_pos example_chapter_text))"
    unfolding sp6 by auto
  from ep f2 have "end_pos = 25" by simp
  with st s1
  have r1: "entry_text (snd (chapter_at (pages refinement_reader) refinement_bookmarks 0)) = ''real content''"
    by simp
  from h1 h2 h3 ne f1 f2 r1 srt run show ?thesis by simp
qed

section \<open>Properties of the collection of bookmarks\<close>

lemma get_bookmarks_entries:
  "get_bookmarks outline_items level acc
     = acc @ concat (map (\<lambda>item. entries_of_item item level) outline_items)"
  by (induction outline_items level acc rule: get_bookmarks.induct)
    (simp_all split: destination.splits)

lemma get_bookmarks_outline_entries:
  "get_bookmarks outline_items 0 [] = outline_entries outline_items"
  by (simp add: get_bookmarks_entries outline_entries_def)

section \<open>Properties of the ordered dictionary of chapters\<close>

lemma update_new_key: "k \<notin> fst ` set al \<Longrightarrow> AList.update k v al = al @ [(k, v)]"
  by (induction al) auto

lemma foldl_store_distinct:
  assumes "distinct (map (\<lambda>i. fst (chapter_at pgs sorted_info i)) ns)"
    and "\<forall>i \<in> set ns. fst (chapter_at pgs sorted_info i) \<notin> fst ` set acc"
  shows "foldl (store_chapter pgs sorted_info) acc ns = acc @ map (chapter_at pgs sorted_info) ns"
  using assms
proof (induction ns arbitrary: acc)
  case Nil
  then show ?case by simp
next
  case (Cons n ns)
  have step: "store_chapter pgs sorted_info acc n = acc @ [chapter_at pgs sorted_info n]"
    using Cons.prems(2) by (simp add: store_chapter_def update_new_key)
  have "foldl (store_chapter pgs sorted_info) (acc @ [chapter_at pgs sorted_info n]) ns
          = (acc @ [chapter_at pgs sorted_info n]) @ map (chapter_at pgs sorted_info) ns"
  proof (rule Cons.IH)
    show "distinct (map (\<lambda>i. fst (chapter_at pgs sorted_info i)) ns)"
      using Cons.prems(1) by simp
    show "\<forall>i \<in> set ns. fst (chapter_at pgs sorted_info i) \<notin> fst ` set (acc @ [chapter_at pgs sorted_info n])"
    proof
      fix i
      assume i: "i \<in> set ns"
      then have "fst (chapter_at pgs sorted_info i) \<noteq> fst (chapter_at pgs sorted_info n)"
        using Cons.prems(1) by (metis (no_types, lifting) distinct.simps(2) image_eqI list.simps(9) set_map)
      moreover have "fst (chapter_at pgs sorted_info i) \<notin> fst ` set acc"
        using i Cons.prems(2) by simp
      ultimately show "fst (chapter_at pgs sorted_info i) \<notin> fst ` set (acc @ [chapter_at pgs sorted_info n])"
        by simp
    qed
  qed
  with step show ?case by simp
qed

lemma foldl_store_untouched:
  assumes "\<forall>i \<in> set ns. fst (chapter_at pgs sorted_info i) \<noteq> k"
  shows "map_of (foldl (store_chapter pgs sorted_info) acc ns) k = map_of acc k"
  using assms
proof (induction ns arbitrary: acc)
  case Nil
  show ?case by simp
next
  case (Cons n ns)
  from Cons.prems have key: "fst (chapter_at pgs sorted_info n) \<noteq> k"
    and rest: "\<forall>i \<in> set ns. fst (chapter_at pgs sorted_info i) \<noteq> k"
    by simp_all
  have "map_of (foldl (store_chapter pgs sorted_info) acc (n # ns)) k
          = map_of (store_chapter pgs sorted_info acc n) k"
    using Cons.IH [OF rest] by simp
  also have "\<dots> = map_of acc k"
    using key by (simp add: store_chapter_def AList.update_conv')
  finally show ?case .
qed

lemma foldl_store_last:
  assumes "i < n" and "\<forall>j. i < j \<and> j < n \<longrightarrow> fst (chapter_at pgs sorted_info j) \<noteq> fst (chapter_at pgs sorted_info i)"
  shows "map_of (foldl (store_chapter pgs sorted_info) [] [0..<n]) (fst (chapter_at pgs sorted_info i))
           = Some (snd (chapter_at pgs sorted_info i))"
proof -
  have "[0..<i + (n - i)] = [0..<i] @ [i..<i + (n - i)]"
    by (rule upt_add_eq_append) simp
  then have split: "[0..<n] = [0..<i] @ [i] @ [Suc i..<n]"
    using assms(1) by (simp add: upt_conv_Cons)
  have "\<forall>j \<in> set [Suc i..<n]. fst (chapter_at pgs sorted_info j) \<noteq> fst (chapter_at pgs sorted_info i)"
    using assms(2) by simp
  then show ?thesis
    by (simp add: split foldl_store_untouched store_chapter_def AList.update_conv' del: upt.simps)
qed

lemma title_of_chapter_at: "fst (chapter_at pgs sorted_info i) = title_of (sorted_info ! i)"
  by (simp add: chapter_at_def Let_def)

lemma level_of_chapter_at: "entry_level (snd (chapter_at pgs sorted_info i)) = level_of (sorted_info ! i)"
  by (simp add: chapter_at_def Let_def)

lemma distinct_titles_sorted:
  "distinct (map title_of (sorted_bookmarks info)) = distinct (map title_of info)"
proof -
  have "mset (map title_of (sorted_bookmarks info)) = mset (map title_of info)"
    by (simp add: sorted_bookmarks_def)
  then show ?thesis by (rule mset_eq_imp_distinct_iff)
qed

lemma split_text_by_bookmarks_with_bookmarks:
  assumes "get_bookmarks (outline reader) 0 [] \<noteq> []"
  shows "split_text_by_bookmarks reader =
           Some (foldl (store_chapter (pages reader) (sorted_bookmarks (get_bookmarks (outline reader) 0 []))) []
                   [0..<length (get_bookmarks (outline reader) 0 [])])"
proof -
  have "outline reader \<noteq> []"
    using assms by auto
  with assms show ?thesis
    by (simp add: split_text_by_bookmarks_def Let_def length_sorted_bookmarks)
qed

text \<open>
  Claim C4, as amended. When the outline flattens to \<open>N \<ge> 1\<close> entries with a page and the
  titles of these entries are pairwise distinct, the result has exactly \<open>N\<close> chapters, one
  per entry, in the order of the entries sorted by page, and the level of each chapter is
  the nesting depth of its entry in the outline.
\<close>

theorem chapters_per_entry:
  assumes "get_bookmarks (outline reader) 0 [] \<noteq> []"
    and "distinct (map title_of (get_bookmarks (outline reader) 0 []))"
  shows "\<exists>chapters. split_text_by_bookmarks reader = Some chapters
           \<and> length chapters = length (get_bookmarks (outline reader) 0 [])
           \<and> map (\<lambda>c. (fst c, entry_level (snd c))) chapters
               = map (\<lambda>item. (title_of item, level_of item))
                   (sorted_bookmarks (get_bookmarks (outline reader) 0 []))
           \<and> get_bookmarks (outline reader) 0 [] = outline_entries (outline reader)"
proof -
  define info where "info = get_bookmarks (outline reader) 0 []"
  define sorted_info where "sorted_info = sorted_bookmarks info"
  define chapters where "chapters = map (chapter_at (pages reader) sorted_info) [0..<length info]"
  have len: "length sorted_info = length info"
    by (simp add: sorted_info_def length_sorted_bookmarks)
  have titles: "map (\<lambda>i. fst (chapter_at (pages reader) sorted_info i)) [0..<length info]
                  = map title_of sorted_info"
    by (rule nth_equalityI) (simp_all add: len title_of_chapter_at)
  have "distinct (map title_of sorted_info)"
    using assms(2) by (simp add: sorted_info_def info_def distinct_titles_sorted)
  with titles have "distinct (map (\<lambda>i. fst (chapter_at (pages reader) sorted_info i)) [0..<length info])"
    by simp
  then have "foldl (store_chapter (pages reader) sorted_info) [] [0..<length info] = chapters"
    unfolding chapters_def using foldl_store_distinct [of "pages reader" sorted_info "[0..<length info]" "[]"]
    by simp
  then have res: "split_text_by_bookmarks reader = Some chapters"
    using split_text_by_bookmarks_with_bookmarks [OF assms(1)]
    by (simp add: info_def sorted_info_def)
  have "map (\<lambda>c. (fst c, entry_level (snd c))) chapters
          = map (\<lambda>item. (title_of item, level_of item)) sorted_info"
    by (rule nth_equalityI)
      (simp_all add: chapters_def len title_of_chapter_at level_of_chapter_at)
  moreover have "length chapters = length info"
    by (simp add: chapters_def)
  ultimately show ?thesis
    using res by (auto simp: info_def sorted_info_def get_bookmarks_outline_entries)
qed

theorem chapters_per_entry_witness:
  "get_bookmarks (outline example_reader) 0 [] \<noteq> []
   \<and> distinct (map title_of (get_bookmarks (outline example_reader) 0 []))
   \<and> split_text_by_bookmarks example_reader
       = Some [(''Intro'', \<lparr>entry_text = ''a'', entry_level = 0\<rparr>),
               (''Sub'', \<lparr>entry_text = ''bc'', entry_level = 1\<rparr>),
               (''Chapter 2'', \<lparr>entry_text = ''de'', entry_level = 0\<rparr>)]
   \<and> (\<exists>chapters. split_text_by_bookmarks example_reader = Some chapters
         \<and> length chapters = length (get_bookmarks (outline example_reader) 0 []))"
proof -
  have h1: "get_bookmarks (outline example_reader) 0 [] \<noteq> []"
    by code_simp
  have h2: "distinct (map title_of (get_bookmarks (outline example_reader) 0 []))"
    by code_simp
  have run: "split_text_by_bookmarks example_reader
       = Some [(''Intro'', \<lparr>entry_text = ''a'', entry_level = 0\<rparr>),
               (''Sub'', \<lparr>entry_text = ''bc'', entry_level = 1\<rparr>),
               (''Chapter 2'', \<lparr>entry_text = ''de'', entry_level = 0\<rparr>)]"
    by code_simp
  from chapters_per_entry [OF h1 h2]
  have "\<exists>chapters. split_text_by_bookmarks example_reader = Some chapters
         \<and> length chapters = length (get_bookmarks (outline example_reader) 0 [])"
    by blast
  with h1 h2 run show ?thesis by blast
qed

text \<open>
  Claim C4 as stated fails: two bookmarks with the same title are two entries with a page,
  and the result, which is keyed by the title, has one chapter. It also fails for no
  entry at all: a document without an outline has no entry and gets the one chapter of
  the fallback.
\<close>

theorem chapters_per_entry_counterexample:
  "length (get_bookmarks (outline duplicate_title_reader) 0 []) = 2
   \<and> split_text_by_bookmarks duplicate_title_reader
       = Some [(''Notes'', \<lparr>entry_text = ''y'', entry_level = 0\<rparr>)]
   \<and> length (get_bookmarks (outline no_outline_reader) 0 []) = 0
   \<and> split_text_by_bookmarks no_outline_reader
       = Some [(''Full Text (No Bookmarks)'', \<lparr>entry_text = ''hello'', entry_level = 0\<rparr>)]"
  by code_simp

section \<open>Properties of chapters outside the document\<close>

lemma chapter_at_out_of_range:
  assumes "\<not> (0 \<le> page_of (sorted_info ! i) \<and> page_of (sorted_info ! i) < int (length pgs))"
  shows "chapter_at pgs sorted_info i
           = (title_of (sorted_info ! i),
              \<lparr>entry_text = [], entry_level = level_of (sorted_info ! i)\<rparr>)"
proof -
  have "raw_chapter_text pgs (page_of (sorted_info ! i)) (end_page_of pgs sorted_info i) = []"
    using assms by (simp add: raw_chapter_text_def)
  then show ?thesis
    by (simp add: chapter_at_def Let_def refine_text_def strip_def)
qed

text \<open>
  Claim C9, as amended. For an entry whose start page lies outside the document the
  function does not fail: the iteration for the entry stores a chapter with empty text
  and the level of the entry under the title of the entry, and the result holds this
  chapter under that title when no entry later in the sorted list has the same title.
\<close>

theorem out_of_range_chapter_empty:
  assumes "sorted_info = sorted_bookmarks (get_bookmarks (outline reader) 0 [])"
    and "i < length sorted_info"
    and "\<not> (0 \<le> page_of (sorted_info ! i) \<and> page_of (sorted_info ! i) < int (length (pages reader)))"
    and "\<forall>j. i < j \<and> j < length sorted_info \<longrightarrow> title_of (sorted_info ! j) \<noteq> title_of (sorted_info ! i)"
  shows "chapter_at (pages reader) sorted_info i
           = (title_of (sorted_info ! i),
              \<lparr>entry_text = [], entry_level = level_of (sorted_info ! i)\<rparr>)
       \<and> (\<exists>chapters. split_text_by_bookmarks reader = Some chapters
             \<and> map_of chapters (title_of (sorted_info ! i))
                 = Some \<lparr>entry_text = [], entry_level = level_of (sorted_info ! i)\<rparr>)"
proof -
  have len: "length sorted_info = length (get_bookmarks (outline reader) 0 [])"
    using assms(1) by (simp add: length_sorted_bookmarks)
  with assms(2) have ne: "get_bookmarks (outline reader) 0 [] \<noteq> []"
    by auto
  have at: "chapter_at (pages reader) sorted_info i
           = (title_of (sorted_info ! i),
              \<lparr>entry_text = [], entry_level = level_of (sorted_info ! i)\<rparr>)"
    using assms(3) by (rule chapter_at_out_of_range)
  have res: "split_text_by_bookmarks reader
          = Some (foldl (store_chapter (pages reader) sorted_info) [] [0..<length sorted_info])"
    using split_text_by_bookmarks_with_bookmarks [OF ne] assms(1) len by simp
  have "\<forall>j. i < j \<and> j < length sorted_info \<longrightarrow>
          fst (chapter_at (pages reader) sorted_info j) \<noteq> fst (chapter_at (pages reader) sorted_info i)"
    using assms(4) by (simp add: title_of_chapter_at)
  from foldl_store_last [OF assms(2) this]
  have "map_of (foldl (store_chapter (pages reader) sorted_info) [] [0..<length sorted_info])
          (title_of (sorted_info ! i))
        = Some \<lparr>entry_text = [], entry_level = level_of (sorted_info ! i)\<rparr>"
    by (simp add: at)
  with res at show ?thesis by simp
qed

theorem out_of_range_chapter_empty_witness:
  "[(''Lost'', - 1, 0), (''Notes'', 0, 0)] = sorted_bookmarks (get_bookmarks (outline lost_bookmark_reader) 0 [])
   \<and> (0::nat) < length [(''Lost'', - 1 :: int, 0 :: nat), (''Notes'', 0, 0)]
   \<and> \<not> (0 \<le> page_of ([(''Lost'', - 1, 0), (''Notes'', 0, 0)] ! 0)
          \<and> page_of ([(''Lost'', - 1, 0), (''Notes'', 0, 0)] ! 0) < int (length (pages lost_bookmark_reader)))
   \<and> title_of ([(''Lost'', - 1, 0), (''Notes'', 0, 0)] ! 1) \<noteq> title_of ([(''Lost'', - 1, 0), (''Notes'', 0, 0)] ! 0)
   \<and> split_text_by_bookmarks lost_bookmark_reader
       = Some [(''Lost'', \<lparr>entry_text = [], entry_level = 0\<rparr>),
               (''Notes'', \<lparr>entry_text = ''x'', entry_level = 0\<rparr>)]
   \<and> (\<exists>chapters. split_text_by_bookmarks lost_bookmark_reader = Some chapters
         \<and> map_of chapters ''Lost'' = Some \<lparr>entry_text = [], entry_level = 0\<rparr>)"
proof -
  have h1: "[(''Lost'', - 1, 0), (''Notes'', 0, 0)] = sorted_bookmarks (get_bookmarks (outline lost_bookmark_reader) 0 [])"
    by code_simp
  have h2: "(0::nat) < length [(''Lost'', - 1 :: int, 0 :: nat), (''Notes'', 0, 0)]"
    by simp
  have h3: "\<not> (0 \<le> page_of ([(''Lost'', - 1, 0), (''Notes'', 0, 0)] ! 0)
          \<and> page_of ([(''Lost'', - 1, 0), (''Notes'', 0, 0)] ! 0) < int (length (pages lost_bookmark_reader)))"
    by (simp add: page_of_def)
  have h4: "\<forall>j. 0 < j \<and> j < length [(''Lost'', - 1 :: int, 0 :: nat), (''Notes'', 0, 0)] \<longrightarrow>
          title_of ([(''Lost'', - 1, 0), (''Notes'', 0, 0)] ! j) \<noteq> title_of ([(''Lost'', - 1, 0), (''Notes'', 0, 0)] ! 0)"
  proof (intro allI impI)
    fix j :: nat
    assume "0 < j \<and> j < length [(''Lost'', - 1 :: int, 0 :: nat), (''Notes'', 0, 0)]"
    then have "j = 1" by simp
    then show "title_of ([(''Lost'', - 1, 0), (''Notes'', 0, 0)] ! j) \<noteq> title_of ([(''Lost'', - 1, 0), (''Notes'', 0, 0)] ! 0)"
      by (simp add: title_of_def)
  qed
  have run: "split_text_by_bookmarks lost_bookmark_reader
       = Some [(''Lost'', \<lparr>entry_text = [], entry_level = 0\<rparr>),
               (''Notes'', \<lparr>entry_text = ''x'', entry_level = 0\<rparr>)]"
    by code_simp
  from out_of_range_chapter_empty [OF h1 h2 h3 h4]
  have "\<exists>chapters. split_text_by_bookmarks lost_bookmark_reader = Some chapters
         \<and> map_of chapters ''Lost'' = Some \<lparr>entry_text = [], entry_level = 0\<rparr>"
    by (simp add: title_of_def level_of_def)
  moreover have "title_of ([(''Lost'', - 1, 0), (''Notes'', 0, 0)] ! 1) \<noteq> title_of ([(''Lost'', - 1, 0), (''Notes'', 0, 0)] ! 0)"
    by (simp add: title_of_def)
  ultimately show ?thesis using h1 h2 h3 run by blast
qed

text \<open>
  Claim C9 as stated fails: the first entry of the sorted list has the page \<open>-1\<close>, which
  is what the reader gives for a destination without a page, and the only chapter of the
  result, stored again under the same title by the second entry, has the text of the page.
\<close>

theorem out_of_range_chapter_empty_counterexample:
  "page_of (sorted_bookmarks (get_bookmarks (outline broken_bookmark_reader) 0 []) ! 0) = - 1
   \<and> split_text_by_bookmarks broken_bookmark_reader
       = Some [(''Notes'', \<lparr>entry_text = ''x'', entry_level = 0\<rparr>)]"
  by code_simp

section \<open>What the search returns\<close>

lemma skip_whitespace_props:
  assumes "idx \<le> length s"
  shows "idx \<le> skip_whitespace s idx \<and> skip_whitespace s idx \<le> length s
       \<and> (\<forall>j. idx \<le> j \<and> j < skip_whitespace s idx \<longrightarrow> isspace (s ! j))
       \<and> (skip_whitespace s idx < length s \<longrightarrow> \<not> isspace (s ! skip_whitespace s idx))"
  using assms
proof (induction s idx rule: skip_whitespace.induct)
  case (1 s idx)
  show ?case
  proof (cases "idx < length s \<and> isspace (s ! idx)")
    case True
    then have eq: "skip_whitespace s idx = skip_whitespace s (idx + 1)"
      by (subst skip_whitespace.simps) simp
    from True have "idx + 1 \<le> length s" by simp
    from "1.IH" [OF True this]
    have IH: "idx + 1 \<le> skip_whitespace s (idx + 1)" "skip_whitespace s (idx + 1) \<le> length s"
      "\<forall>j. idx + 1 \<le> j \<and> j < skip_whitespace s (idx + 1) \<longrightarrow> isspace (s ! j)"
      "skip_whitespace s (idx + 1) < length s \<longrightarrow> \<not> isspace (s ! skip_whitespace s (idx + 1))"
      by simp_all
    have "isspace (s ! j)" if "idx \<le> j \<and> j < skip_whitespace s (idx + 1)" for j
    proof (cases "j = idx")
      case True
      with \<open>idx < length s \<and> isspace (s ! idx)\<close> show ?thesis by simp
    next
      case False
      with that IH(3) show ?thesis by simp
    qed
    with IH show ?thesis unfolding eq by auto
  next
    case False
    then have eq: "skip_whitespace s idx = idx"
      by (subst skip_whitespace.simps) auto
    from False "1.prems" show ?thesis unfolding eq by auto
  qed
qed

lemma filter_whitespace_empty:
  assumes "\<forall>j < length w. isspace (w ! j)"
  shows "filter (\<lambda>c. \<not> isspace c) w = []"
  using assms by (auto simp: filter_empty_conv in_set_conv_nth)

lemma without_whitespace_drop_skip:
  assumes "idx \<le> length s"
  shows "filter (\<lambda>c. \<not> isspace c) (drop (skip_whitespace s idx) s)
           = filter (\<lambda>c. \<not> isspace c) (drop idx s)"
proof -
  let ?k = "skip_whitespace s idx"
  from skip_whitespace_props [OF assms]
  have k: "idx \<le> ?k" "?k \<le> length s" "\<forall>j. idx \<le> j \<and> j < ?k \<longrightarrow> isspace (s ! j)"
    by simp_all
  have "drop idx s = take (?k - idx) (drop idx s) @ drop (?k - idx) (drop idx s)"
    by (rule append_take_drop_id [symmetric])
  also have "drop (?k - idx) (drop idx s) = drop ?k s"
    using k(1) by simp
  finally have split: "drop idx s = take (?k - idx) (drop idx s) @ drop ?k s" .
  have "filter (\<lambda>c. \<not> isspace c) (take (?k - idx) (drop idx s)) = []"
  proof (rule filter_whitespace_empty, intro allI impI)
    fix j
    assume "j < length (take (?k - idx) (drop idx s))"
    then have j: "j < ?k - idx" by simp
    then have "take (?k - idx) (drop idx s) ! j = s ! (idx + j)"
      using k(2) by simp
    moreover have "isspace (s ! (idx + j))"
      using k(3) j by simp
    ultimately show "isspace (take (?k - idx) (drop idx s) ! j)" by simp
  qed
  then show ?thesis
    using arg_cong [OF split, of "filter (\<lambda>c. \<not> isspace c)"] by simp
qed

lemma without_whitespace_take_skip:
  assumes "idx \<le> length s" and "p \<le> idx"
  shows "filter (\<lambda>c. \<not> isspace c) (drop p (take (skip_whitespace s idx) s))
           = filter (\<lambda>c. \<not> isspace c) (drop p (take idx s))"
proof -
  let ?k = "skip_whitespace s idx"
  from skip_whitespace_props [OF assms(1)]
  have k: "idx \<le> ?k" "?k \<le> length s" "\<forall>j. idx \<le> j \<and> j < ?k \<longrightarrow> isspace (s ! j)"
    by simp_all
  have "take ?k s = take idx s @ take (?k - idx) (drop idx s)"
    using k(1) by (metis le_add_diff_inverse take_add)
  then have split: "drop p (take ?k s) = drop p (take idx s) @ take (?k - idx) (drop idx s)"
    using assms by simp
  have "filter (\<lambda>c. \<not> isspace c) (take (?k - idx) (drop idx s)) = []"
  proof (rule filter_whitespace_empty, intro allI impI)
    fix j
    assume "j < length (take (?k - idx) (drop idx s))"
    then have j: "j < ?k - idx" by simp
    then have "take (?k - idx) (drop idx s) ! j = s ! (idx + j)"
      using k(2) by simp
    moreover have "isspace (s ! (idx + j))"
      using k(3) j by simp
    ultimately show "isspace (take (?k - idx) (drop idx s) ! j)" by simp
  qed
  then show ?thesis
    by (simp add: split)
qed

lemma without_whitespace_drop_char:
  assumes "k < length s" and "\<not> isspace (s ! k)"
  shows "filter (\<lambda>c. \<not> isspace c) (drop k s)
           = s ! k # filter (\<lambda>c. \<not> isspace c) (drop (Suc k) s)"
  using assms by (simp add: Cons_nth_drop_Suc [symmetric])

lemma without_whitespace_take_char:
  assumes "k < length s" and "\<not> isspace (s ! k)" and "p \<le> k"
  shows "filter (\<lambda>c. \<not> isspace c) (drop p (take (Suc k) s))
           = filter (\<lambda>c. \<not> isspace c) (drop p (take k s)) @ [s ! k]"
  using assms by (simp add: take_Suc_conv_app_nth)


lemma first_match_from_step:
  assumes "s < length haystack"
  shows "first_match_from haystack needle s
           = (if matches_ignoring_whitespace_at haystack needle s then int s
              else first_match_from haystack needle (Suc s))"
  using assms by (simp add: first_match_from_def upt_conv_Cons)

lemma first_match_from_none:
  assumes "\<forall>i. s \<le> i \<longrightarrow> \<not> matches_ignoring_whitespace_at haystack needle i"
  shows "first_match_from haystack needle s = - 1"
proof -
  have "filter (matches_ignoring_whitespace_at haystack needle) [s..<length haystack] = []"
    using assms by (simp add: filter_empty_conv)
  then show ?thesis by (simp add: first_match_from_def)
qed

lemma first_match_from_skip:
  assumes "s \<le> k" and "k \<le> length haystack"
    and "\<forall>j. s \<le> j \<and> j < k \<longrightarrow> isspace (haystack ! j)"
  shows "first_match_from haystack needle s = first_match_from haystack needle k"
  using assms
proof (induction "k - s" arbitrary: s)
  case 0
  then show ?case by simp
next
  case (Suc d)
  then have s: "s < k" "s < length haystack" by simp_all
  with Suc.prems have "isspace (haystack ! s)" by simp
  then have "\<not> matches_ignoring_whitespace_at haystack needle s"
    by (simp add: matches_ignoring_whitespace_at_def)
  then have "first_match_from haystack needle s = first_match_from haystack needle (Suc s)"
    using s(2) by (simp add: first_match_from_step)
  also have "\<dots> = first_match_from haystack needle k"
    using Suc.hyps(2) Suc.prems s by (intro Suc.hyps(1)) simp_all
  finally show ?case .
qed

lemma match_split:
  assumes "p < h" and "h \<le> length haystack" and "\<not> isspace (haystack ! p)"
    and "filter (\<lambda>c. \<not> isspace c) (take n needle)
           = filter (\<lambda>c. \<not> isspace c) (drop p (take h haystack))"
  shows "matches_ignoring_whitespace_at haystack needle p \<longleftrightarrow>
           take (length (filter (\<lambda>c. \<not> isspace c) (drop n needle)))
             (filter (\<lambda>c. \<not> isspace c) (drop h haystack))
           = filter (\<lambda>c. \<not> isspace c) (drop n needle)"
proof -
  let ?nw = "filter (\<lambda>c. \<not> isspace c)"
  have "needle = take n needle @ drop n needle" by simp
  then have nd: "?nw needle = ?nw (take n needle) @ ?nw (drop n needle)"
    by (metis filter_append)
  have "haystack = take h haystack @ drop h haystack" by simp
  then have "drop p haystack = drop p (take h haystack) @ drop h haystack"
    using assms(1,2) by (metis drop_append length_take min.absorb2 less_imp_le_nat diff_is_0_eq drop0)
  then have hs: "?nw (drop p haystack) = ?nw (drop p (take h haystack)) @ ?nw (drop h haystack)"
    by simp
  have "p < length haystack" using assms(1,2) by simp
  then show ?thesis
    using assms(3) by (simp add: matches_ignoring_whitespace_at_def nd hs assms(4))
qed

lemma no_match_after:
  assumes "length (filter (\<lambda>c. \<not> isspace c) (drop p haystack))
             < length (filter (\<lambda>c. \<not> isspace c) needle)"
    and "p \<le> i"
  shows "\<not> matches_ignoring_whitespace_at haystack needle i"
proof
  let ?nw = "filter (\<lambda>c. \<not> isspace c)"
  assume "matches_ignoring_whitespace_at haystack needle i"
  then have "take (length (?nw needle)) (?nw (drop i haystack)) = ?nw needle"
    by (simp add: matches_ignoring_whitespace_at_def)
  then have "length (?nw needle) \<le> length (?nw (drop i haystack))"
    by (metis length_take min.cobounded1)
  moreover have "drop p haystack = take (i - p) (drop p haystack) @ drop i haystack"
    using assms(2) by (metis append_take_drop_id drop_drop le_add_diff_inverse2)
  then have "?nw (drop p haystack) = ?nw (take (i - p) (drop p haystack)) @ ?nw (drop i haystack)"
    by (metis filter_append)
  then have "length (?nw (drop i haystack)) \<le> length (?nw (drop p haystack))"
    by simp
  ultimately show False using assms(1) by simp
qed

lemma find_loop_end:
  assumes "\<not> h_idx < length haystack"
  shows "find_loop haystack needle h_idx n_idx potential_start
           = find_after_loop needle n_idx potential_start"
  using assms by (subst find_loop.simps) simp

lemma find_loop_only_whitespace:
  assumes "h_idx < length haystack" and "skip_whitespace haystack h_idx = length haystack"
  shows "find_loop haystack needle h_idx n_idx potential_start
           = find_after_loop needle n_idx potential_start"
  using assms by (subst find_loop.simps) (simp add: Let_def)

lemma find_loop_needle_done:
  assumes "h_idx < length haystack" and "skip_whitespace haystack h_idx \<noteq> length haystack"
    and "skip_whitespace needle n_idx = length needle"
  shows "find_loop haystack needle h_idx n_idx potential_start = potential_start"
  using assms by (subst find_loop.simps) (simp add: Let_def)

lemma find_loop_match:
  assumes "h_idx < length haystack" and "skip_whitespace haystack h_idx \<noteq> length haystack"
    and "skip_whitespace needle n_idx \<noteq> length needle"
    and "haystack ! skip_whitespace haystack h_idx = needle ! skip_whitespace needle n_idx"
  shows "find_loop haystack needle h_idx n_idx potential_start
           = find_loop haystack needle (skip_whitespace haystack h_idx + 1)
               (skip_whitespace needle n_idx + 1)
               (if skip_whitespace needle n_idx = 0 then int (skip_whitespace haystack h_idx)
                else potential_start)"
  using assms by (subst find_loop.simps) (simp add: Let_def)

lemma find_loop_backtrack:
  assumes "h_idx < length haystack" and "skip_whitespace haystack h_idx \<noteq> length haystack"
    and "skip_whitespace needle n_idx \<noteq> length needle"
    and "haystack ! skip_whitespace haystack h_idx \<noteq> needle ! skip_whitespace needle n_idx"
    and "potential_start \<noteq> - 1"
  shows "find_loop haystack needle h_idx n_idx potential_start
           = find_loop haystack needle (nat potential_start + 1) 0 (- 1)"
  using assms by (subst find_loop.simps) (simp add: Let_def)

lemma find_loop_advance:
  assumes "h_idx < length haystack" and "skip_whitespace haystack h_idx \<noteq> length haystack"
    and "skip_whitespace needle n_idx \<noteq> length needle"
    and "haystack ! skip_whitespace haystack h_idx \<noteq> needle ! skip_whitespace needle n_idx"
    and "potential_start = - 1"
  shows "find_loop haystack needle h_idx n_idx potential_start
           = find_loop haystack needle (skip_whitespace haystack h_idx + 1) 0 (- 1)"
  using assms by (subst find_loop.simps) (simp add: Let_def)


lemma without_whitespace_haystack_split:
  assumes "p \<le> h" and "h \<le> length haystack"
  shows "filter (\<lambda>c. \<not> isspace c) (drop p haystack)
           = filter (\<lambda>c. \<not> isspace c) (drop p (take h haystack))
             @ filter (\<lambda>c. \<not> isspace c) (drop h haystack)"
proof -
  have "haystack = take h haystack @ drop h haystack" by simp
  then have "drop p haystack = drop p (take h haystack) @ drop h haystack"
    using assms by (metis drop_append length_take min.absorb2 diff_is_0_eq drop0)
  then show ?thesis by simp
qed

lemma in_match_at_end:
  assumes "p < h" and "h \<le> length haystack" and "\<not> isspace (haystack ! p)"
    and "n_idx \<le> length needle"
    and "filter (\<lambda>c. \<not> isspace c) (take n_idx needle)
           = filter (\<lambda>c. \<not> isspace c) (drop p (take h haystack))"
    and "filter (\<lambda>c. \<not> isspace c) (drop h haystack) = []"
  shows "find_after_loop needle n_idx (int p)
           = (if matches_ignoring_whitespace_at haystack needle p then int p
              else first_match_from haystack needle (Suc p))"
proof -
  let ?nw = "filter (\<lambda>c. \<not> isspace c)"
  define n where "n = skip_whitespace needle n_idx"
  from skip_whitespace_props [OF assms(4)]
  have n: "n \<le> length needle" "n < length needle \<longrightarrow> \<not> isspace (needle ! n)"
    by (simp_all add: n_def)
  have rest: "?nw (drop n needle) = ?nw (drop n_idx needle)"
    unfolding n_def by (rule without_whitespace_drop_skip [OF assms(4)])
  note split = match_split [OF assms(1,2,3,5)]
  show ?thesis
  proof (cases "n = length needle")
    case True
    then have "?nw (drop n_idx needle) = []"
      using rest by simp
    then have "matches_ignoring_whitespace_at haystack needle p"
      using split by simp
    then show ?thesis
      using True by (simp add: find_after_loop_def n_def [symmetric])
  next
    case False
    then have "n < length needle" using n(1) by simp
    then have "?nw (drop n needle) \<noteq> []"
      using n(2) by (simp add: without_whitespace_drop_char)
    then have ne: "?nw (drop n_idx needle) \<noteq> []"
      using rest by simp
    have "needle = take n_idx needle @ drop n_idx needle" by simp
    then have "?nw needle = ?nw (take n_idx needle) @ ?nw (drop n_idx needle)"
      by (metis filter_append)
    moreover have "?nw (drop p haystack) = ?nw (drop p (take h haystack))"
      using without_whitespace_haystack_split [of p h haystack] assms(1,2,6) by simp
    ultimately have "length (?nw (drop p haystack)) < length (?nw needle)"
      using ne assms(5) by simp
    then have none: "\<forall>i. p \<le> i \<longrightarrow> \<not> matches_ignoring_whitespace_at haystack needle i"
      using no_match_after by blast
    then have "\<not> matches_ignoring_whitespace_at haystack needle p"
      by simp
    moreover have "first_match_from haystack needle (Suc p) = - 1"
      using none by (intro first_match_from_none) simp
    ultimately show ?thesis
      using False by (simp add: find_after_loop_def n_def [symmetric])
  qed
qed

lemma head_mismatch:
  assumes "k < length needle" and "\<not> isspace (needle ! k)"
    and "h < length haystack" and "\<not> isspace (haystack ! h)"
    and "haystack ! h \<noteq> needle ! k"
  shows "take (length (filter (\<lambda>c. \<not> isspace c) (drop k needle)))
           (filter (\<lambda>c. \<not> isspace c) (drop h haystack))
         \<noteq> filter (\<lambda>c. \<not> isspace c) (drop k needle)"
  using assms by (simp add: without_whitespace_drop_char)


lemma find_loop_first_match:
  assumes "needle \<noteq> []" and "\<not> isspace (needle ! 0)"
  shows "(potential_start = - 1 \<and> n_idx = 0 \<longrightarrow>
            find_loop haystack needle h_idx n_idx potential_start
              = first_match_from haystack needle h_idx)
       \<and> (\<forall>p. potential_start = int p \<and> p < h_idx \<and> h_idx \<le> length haystack
                \<and> 0 < n_idx \<and> n_idx \<le> length needle \<and> \<not> isspace (haystack ! p)
                \<and> filter (\<lambda>c. \<not> isspace c) (take n_idx needle)
                    = filter (\<lambda>c. \<not> isspace c) (drop p (take h_idx haystack)) \<longrightarrow>
            find_loop haystack needle h_idx n_idx potential_start
              = (if matches_ignoring_whitespace_at haystack needle p then int p
                 else first_match_from haystack needle (Suc p)))"
  using assms
proof (induction haystack needle h_idx n_idx potential_start rule: find_loop.induct)
  case (1 haystack needle h_idx n_idx potential_start)
  let ?nw = "filter (\<lambda>c. \<not> isspace c)"
  let ?M = "matches_ignoring_whitespace_at haystack needle"
  let ?R = "first_match_from haystack needle"
  define h where "h = skip_whitespace haystack h_idx"
  define n where "n = skip_whitespace needle n_idx"
  note IH = "1.IH" [OF _ h_def _ n_def]
  note needle = "1.prems"
  have needle_len: "0 < length needle" using needle(1) by simp
  show ?case
  proof (intro conjI impI allI)
    assume "potential_start = - 1 \<and> n_idx = 0"
    then have ps: "potential_start = - 1" and n_idx: "n_idx = 0" by simp_all
    have n0: "n = 0"
      unfolding n_def n_idx using needle(2) by (subst skip_whitespace.simps) simp
    have after: "find_after_loop needle n_idx potential_start = - 1"
      using ps by (simp add: find_after_loop_def Let_def)
    show "find_loop haystack needle h_idx n_idx potential_start = ?R h_idx"
    proof (cases "h_idx < length haystack")
      case False
      then have "?R h_idx = - 1" by (simp add: first_match_from_def)
      with False after show ?thesis by (simp add: find_loop_end)
    next
      case True
      then have "h_idx \<le> length haystack" by simp
      from skip_whitespace_props [OF this]
      have hp: "h_idx \<le> h" "h \<le> length haystack"
        "\<forall>j. h_idx \<le> j \<and> j < h \<longrightarrow> isspace (haystack ! j)"
        "h < length haystack \<longrightarrow> \<not> isspace (haystack ! h)"
        by (simp_all add: h_def)
      have skip: "?R h_idx = ?R h"
        using hp(1,2,3) by (rule first_match_from_skip)
      show ?thesis
      proof (cases "h = length haystack")
        case at_end: True
        then have "?R h = - 1" by (simp add: first_match_from_def)
        with skip after True at_end show ?thesis
          by (simp add: find_loop_only_whitespace h_def)
      next
        case inside: False
        then have h_lt: "h < length haystack" and h_char: "\<not> isspace (haystack ! h)"
          using hp(2,4) by simp_all
        have n_ne: "n \<noteq> length needle" using n0 needle(1) by simp
        have nw_needle: "?nw needle = needle ! 0 # ?nw (drop (Suc 0) needle)"
          using without_whitespace_drop_char [OF needle_len needle(2)] by simp
        have nw_hay: "?nw (drop h haystack) = haystack ! h # ?nw (drop (Suc h) haystack)"
          by (rule without_whitespace_drop_char [OF h_lt h_char])
        show ?thesis
        proof (cases "haystack ! h = needle ! n")
          case eq: True
          have step: "find_loop haystack needle h_idx n_idx potential_start
                        = find_loop haystack needle (h + 1) (n + 1) (if n = 0 then int h else potential_start)"
            using find_loop_match [OF True, of needle n_idx potential_start] inside n_ne eq
            by (simp add: h_def n_def)
          have "take (Suc 0) needle = [needle ! 0]"
            using needle_len by (simp add: take_Suc_conv_app_nth)
          moreover have "drop h (take (Suc h) haystack) = [haystack ! h]"
            using h_lt by (simp add: take_Suc_conv_app_nth)
          ultimately have inv: "?nw (take (n + 1) needle) = ?nw (drop h (take (h + 1) haystack))"
            using eq n0 h_char needle(2) by simp
          from IH(1) [OF True inside n_ne eq needle]
          have "find_loop haystack needle (h + 1) (n + 1) (if n = 0 then int h else potential_start)
                  = (if ?M h then int h else ?R (Suc h))"
            using n0 h_lt h_char needle_len inv by simp
          also have "\<dots> = ?R h"
            using h_lt by (simp add: first_match_from_step)
          finally show ?thesis using step skip by simp
        next
          case neq: False
          have step: "find_loop haystack needle h_idx n_idx potential_start
                        = find_loop haystack needle (h + 1) 0 (- 1)"
            using find_loop_advance [OF True, of needle n_idx potential_start] inside n_ne neq ps
            by (simp add: h_def n_def)
          have "\<not> ?M h"
            using neq n0 by (simp add: matches_ignoring_whitespace_at_def nw_needle nw_hay)
          then have "?R h = ?R (Suc h)"
            using h_lt by (simp add: first_match_from_step)
          moreover from IH(3) [OF True inside n_ne neq _ needle]
          have "find_loop haystack needle (h + 1) 0 (- 1) = ?R (h + 1)"
            using ps by simp
          ultimately show ?thesis using step skip by simp
        qed
      qed
    qed
  next
    fix p
    assume inv: "potential_start = int p \<and> p < h_idx \<and> h_idx \<le> length haystack
                \<and> 0 < n_idx \<and> n_idx \<le> length needle \<and> \<not> isspace (haystack ! p)
                \<and> ?nw (take n_idx needle) = ?nw (drop p (take h_idx haystack))"
    then have ps: "potential_start = int p" and p_lt: "p < h_idx"
      and h_le: "h_idx \<le> length haystack" and n_pos: "0 < n_idx"
      and n_le: "n_idx \<le> length needle" and p_char: "\<not> isspace (haystack ! p)"
      and agree: "?nw (take n_idx needle) = ?nw (drop p (take h_idx haystack))"
      by simp_all
    from skip_whitespace_props [OF n_le]
    have np: "n_idx \<le> n" "n \<le> length needle" "n < length needle \<longrightarrow> \<not> isspace (needle ! n)"
      by (simp_all add: n_def)
    show "find_loop haystack needle h_idx n_idx potential_start
            = (if ?M p then int p else ?R (Suc p))"
    proof (cases "h_idx < length haystack")
      case False
      then have "h_idx = length haystack" using h_le by simp
      then have "?nw (drop h_idx haystack) = []" by simp
      from in_match_at_end [OF p_lt h_le p_char n_le agree this] False ps
      show ?thesis by (simp add: find_loop_end)
    next
      case True
      from skip_whitespace_props [OF h_le]
      have hp: "h_idx \<le> h" "h \<le> length haystack"
        "h < length haystack \<longrightarrow> \<not> isspace (haystack ! h)"
        by (simp_all add: h_def)
      have p_h: "p < h" using p_lt hp(1) by simp
      have agree_h: "?nw (take n_idx needle) = ?nw (drop p (take h haystack))"
        using without_whitespace_take_skip [OF h_le, of p] p_lt agree by (simp add: h_def)
      show ?thesis
      proof (cases "h = length haystack")
        case at_end: True
        then have "?nw (drop h haystack) = []" by simp
        from in_match_at_end [OF p_h hp(2) p_char n_le agree_h this] True at_end ps
        show ?thesis by (simp add: find_loop_only_whitespace h_def)
      next
        case inside: False
        then have h_lt: "h < length haystack" and h_char: "\<not> isspace (haystack ! h)"
          using hp(2,3) by simp_all
        have rest: "?nw (drop n needle) = ?nw (drop n_idx needle)"
          unfolding n_def by (rule without_whitespace_drop_skip [OF n_le])
        have "?nw (drop 0 (take n needle)) = ?nw (drop 0 (take n_idx needle))"
          unfolding n_def by (rule without_whitespace_take_skip [OF n_le]) simp
        then have agree_n: "?nw (take n needle) = ?nw (drop p (take h haystack))"
          using agree_h by simp
        show ?thesis
        proof (cases "n = length needle")
          case consumed: True
          then have "?nw (drop n_idx needle) = []" using rest by simp
          then have "?M p"
            using match_split [OF p_h hp(2) p_char agree_h] by simp
          moreover have "find_loop haystack needle h_idx n_idx potential_start = potential_start"
            using find_loop_needle_done [OF True, of needle n_idx potential_start] inside consumed
            by (simp add: h_def n_def)
          ultimately show ?thesis using ps by simp
        next
          case remaining: False
          then have n_lt: "n < length needle" and n_char: "\<not> isspace (needle ! n)"
            using np(2,3) by simp_all
          have n_pos': "n \<noteq> 0" using np(1) n_pos by simp
          show ?thesis
          proof (cases "haystack ! h = needle ! n")
            case eq: True
            have step: "find_loop haystack needle h_idx n_idx potential_start
                          = find_loop haystack needle (h + 1) (n + 1) (if n = 0 then int h else potential_start)"
              using find_loop_match [OF True, of needle n_idx potential_start] inside remaining eq
              by (simp add: h_def n_def)
            have "?nw (drop 0 (take (Suc n) needle)) = ?nw (drop 0 (take n needle)) @ [needle ! n]"
              by (rule without_whitespace_take_char [OF n_lt n_char]) simp
            moreover have "?nw (drop p (take (Suc h) haystack)) = ?nw (drop p (take h haystack)) @ [haystack ! h]"
              using p_h by (intro without_whitespace_take_char [OF h_lt h_char]) simp
            ultimately have inv': "?nw (take (n + 1) needle) = ?nw (drop p (take (h + 1) haystack))"
              using agree_n eq by simp
            from IH(1) [OF True inside remaining eq needle]
            have "find_loop haystack needle (h + 1) (n + 1) (if n = 0 then int h else potential_start)
                    = (if ?M p then int p else ?R (Suc p))"
              using n_pos' ps p_h h_lt n_lt p_char inv' by simp
            with step show ?thesis by simp
          next
            case neq: False
            have ps_ne: "potential_start \<noteq> - 1" using ps by simp
            have step: "find_loop haystack needle h_idx n_idx potential_start
                          = find_loop haystack needle (nat potential_start + 1) 0 (- 1)"
              using find_loop_backtrack [OF True, of needle n_idx potential_start] inside remaining neq ps_ne
              by (simp add: h_def n_def)
            have "\<not> ?M p"
              using match_split [OF p_h hp(2) p_char agree_n]
                head_mismatch [OF n_lt n_char h_lt h_char neq] by simp
            moreover from IH(2) [OF True inside remaining neq ps_ne needle]
            have "find_loop haystack needle (nat potential_start + 1) 0 (- 1) = ?R (nat potential_start + 1)"
              by simp
            ultimately show ?thesis using step ps by simp
          qed
        qed
      qed
    qed
  qed
qed


text \<open>
  For a needle that begins with a character that is no whitespace, the search returns the
  index of the first whitespace-insensitive match at or after the start offset, and \<open>-1\<close>
  when there is none.
\<close>

lemma find_ignoring_whitespace_first_match:
  assumes "needle \<noteq> []" and "\<not> isspace (needle ! 0)"
  shows "find_ignoring_whitespace haystack needle start_offset
           = first_match_from haystack needle start_offset"
  using find_loop_first_match [OF assms, of "- 1" 0 haystack start_offset] assms(1)
  by (simp add: find_ignoring_whitespace_def)

lemma first_match_from_found:
  assumes "start_offset \<le> i" and "matches_ignoring_whitespace_at haystack needle i"
  shows "\<exists>k. first_match_from haystack needle start_offset = int k
           \<and> start_offset \<le> k \<and> k \<le> i
           \<and> matches_ignoring_whitespace_at haystack needle k
           \<and> (\<forall>j. start_offset \<le> j \<and> j < k \<longrightarrow> \<not> matches_ignoring_whitespace_at haystack needle j)"
  using assms
proof (induction "i - start_offset" arbitrary: start_offset)
  case 0
  then have "start_offset = i" by simp
  moreover have "i < length haystack"
    using "0.prems"(2) by (simp add: matches_ignoring_whitespace_at_def)
  ultimately show ?case
    using "0.prems"(2) by (auto simp: first_match_from_step)
next
  case (Suc d)
  then have lt: "start_offset < i" by simp
  have "i < length haystack"
    using Suc.prems(2) by (simp add: matches_ignoring_whitespace_at_def)
  with lt have s_lt: "start_offset < length haystack" by simp
  show ?case
  proof (cases "matches_ignoring_whitespace_at haystack needle start_offset")
    case True
    then show ?thesis
      using s_lt lt by (auto simp: first_match_from_step)
  next
    case False
    from Suc.hyps(2) lt have "d = i - Suc start_offset" by simp
    from Suc.hyps(1) [OF this _ Suc.prems(2)] lt
    obtain k where k: "first_match_from haystack needle (Suc start_offset) = int k"
      "Suc start_offset \<le> k" "k \<le> i" "matches_ignoring_whitespace_at haystack needle k"
      "\<forall>j. Suc start_offset \<le> j \<and> j < k \<longrightarrow> \<not> matches_ignoring_whitespace_at haystack needle j"
      by auto
    have "first_match_from haystack needle start_offset = int k"
      using False s_lt k(1) by (simp add: first_match_from_step)
    moreover have "\<not> matches_ignoring_whitespace_at haystack needle j"
      if "start_offset \<le> j \<and> j < k" for j
    proof (cases "j = start_offset")
      case True
      with False show ?thesis by simp
    next
      case False
      with that k(5) show ?thesis by simp
    qed
    ultimately show ?thesis using k(2,3,4) by auto
  qed
qed


text \<open>
  For a needle that begins with whitespace the start of a match is never recorded, and
  the search returns \<open>-1\<close> whatever the haystack holds.
\<close>

lemma find_loop_leading_whitespace:
  assumes "needle \<noteq> []" and "isspace (needle ! 0)"
  shows "find_loop haystack needle h_idx n_idx (- 1) = - 1"
  using assms
proof (induction haystack needle h_idx n_idx "- 1 :: int" rule: find_loop.induct)
  case (1 haystack needle h_idx n_idx)
  define h where "h = skip_whitespace haystack h_idx"
  define n where "n = skip_whitespace needle n_idx"
  note IH = "1.hyps" [OF _ h_def _ n_def]
  note needle = "1.prems"
  have after: "find_after_loop needle n_idx (- 1) = - 1"
    by (simp add: find_after_loop_def Let_def)
  have n_pos: "n \<noteq> 0"
  proof (cases "n_idx = 0")
    case True
    have "skip_whitespace needle 0 = skip_whitespace needle (0 + 1)"
      using needle by (subst skip_whitespace.simps) simp
    moreover have "0 + 1 \<le> skip_whitespace needle (0 + 1)"
      using skip_whitespace_props [of "0 + 1" needle] needle(1)
      by (simp add: Suc_leI)
    ultimately show ?thesis using True by (simp add: n_def)
  next
    case False
    have "n_idx \<le> n"
    proof (cases "n_idx \<le> length needle")
      case True
      from skip_whitespace_props [OF this] show ?thesis by (simp add: n_def)
    next
      case False
      then have "skip_whitespace needle n_idx = n_idx"
        by (subst skip_whitespace.simps) simp
      then show ?thesis by (simp add: n_def)
    qed
    with False show ?thesis by simp
  qed
  show ?case
  proof (cases "h_idx < length haystack")
    case False
    with after show ?thesis by (simp add: find_loop_end)
  next
    case True
    show ?thesis
    proof (cases "h = length haystack")
      case at_end: True
      with True after show ?thesis by (simp add: find_loop_only_whitespace h_def)
    next
      case inside: False
      show ?thesis
      proof (cases "n = length needle")
        case consumed: True
        show ?thesis
          using find_loop_needle_done [OF True, of needle n_idx "- 1"] inside consumed
          by (simp add: h_def n_def)
      next
        case remaining: False
        show ?thesis
        proof (cases "haystack ! h = needle ! n")
          case eq: True
          have "find_loop haystack needle h_idx n_idx (- 1)
                  = find_loop haystack needle (h + 1) (n + 1) (if n = 0 then int h else - 1)"
            using find_loop_match [OF True, of needle n_idx "- 1"] inside remaining eq
            by (simp add: h_def n_def)
          also have "\<dots> = find_loop haystack needle (h + 1) (n + 1) (- 1)"
            using n_pos by simp
          also have "\<dots> = - 1"
            using IH(1) [OF True inside remaining eq _ needle] n_pos by simp
          finally show ?thesis .
        next
          case neq: False
          have "find_loop haystack needle h_idx n_idx (- 1)
                  = find_loop haystack needle (h + 1) 0 (- 1)"
            using find_loop_advance [OF True, of needle n_idx "- 1"] inside remaining neq
            by (simp add: h_def n_def)
          also have "\<dots> = - 1"
            using IH(3) [OF True inside remaining neq _ needle] by simp
          finally show ?thesis .
        qed
      qed
    qed
  qed
qed

lemma find_ignoring_whitespace_leading_whitespace:
  assumes "needle \<noteq> []" and "isspace (needle ! 0)"
  shows "find_ignoring_whitespace haystack needle start_offset = - 1"
  using assms find_loop_leading_whitespace [OF assms]
  by (simp add: find_ignoring_whitespace_def)

section \<open>The search against its docstring\<close>

text \<open>
  Claim C5. The empty needle returns the start offset, and the examples of the
  specification evaluate as it says. For a needle that begins with whitespace the source
  does not do what the claim and the docstring of the search say: the start of a match is
  recorded only when the matching needle character has index 0
  (\<open>if n_idx == 0: potential_start = h_idx\<close>), so \<open>potential_start\<close> stays \<open>-1\<close> and
  the search returns \<open>-1\<close>, although a whitespace-insensitive match begins at index 0 of
  the haystack. For a needle that begins with another character the search returns the
  first match, as the lemmas above show.
\<close>

theorem find_needle_with_leading_whitespace:
  "find_ignoring_whitespace ''Intro text'' '' Intro'' 0 = - 1
   \<and> matches_ignoring_whitespace_at ''Intro text'' '' Intro'' 0
   \<and> find_ignoring_whitespace ''Intro text'' ''Intro'' 0 = 0
   \<and> find_ignoring_whitespace ''a  b'' ''ab'' 0 = 0
   \<and> find_ignoring_whitespace ''abc'' ''z'' 0 = - 1
   \<and> find_ignoring_whitespace ''abc'' '''' 2 = 2"
  by code_simp

end
